theory Spec2Isabelle
  imports Complex_Main "HOL-Library.Char_ord" "HOL-Library.List_Lexorder" "HOL-Library.Multiset"
begin

section \<open>JavaScript strings and numbers\<close>

text \<open>
  A JavaScript string is modelled as a \<open>string\<close> whose characters are code units below 256
  (ASCII and Latin-1); \<open>x < y\<close> on strings is the lexicographic order by code unit, which
  is what JavaScript's relational operators compute on two strings. Integers (ids, pages, limits,
  epoch milliseconds) are unbounded \<open>int\<close>s, a price is an exact decimal amount held as an
  integer number of hundredths, and averages are exact rationals: the rounding error of IEEE
  doubles is outside the model.
\<close>

definition isWhiteSpace :: "char \<Rightarrow> bool" where
  "isWhiteSpace c \<longleftrightarrow> (of_char c :: nat) \<in> {9, 10, 11, 12, 13, 32, 160}"

definition toLowerChar :: "char \<Rightarrow> char" where
  "toLowerChar c =
     (let n = (of_char c :: nat)
      in if (65 \<le> n \<and> n \<le> 90) \<or> (192 \<le> n \<and> n \<le> 222 \<and> n \<noteq> 215)
         then char_of (n + 32) else c)"

definition toLowerCase :: "string \<Rightarrow> string" where
  "toLowerCase s = map toLowerChar s"

definition trimStart :: "string \<Rightarrow> string" where
  "trimStart s = dropWhile isWhiteSpace s"

definition trimEnd :: "string \<Rightarrow> string" where
  "trimEnd s = rev (dropWhile isWhiteSpace (rev s))"

definition trim :: "string \<Rightarrow> string" where
  "trim s = trimEnd (trimStart s)"

fun startsWith :: "string \<Rightarrow> string \<Rightarrow> bool" where
  "startsWith s [] = True"
| "startsWith [] (t # ts) = False"
| "startsWith (c # cs) (t # ts) = (c = t \<and> startsWith cs ts)"

text \<open>\<open>includesStr s t\<close> is \<open>s.includes(t)\<close>: \<open>t\<close> occurs in \<open>s\<close> as a contiguous run.\<close>

fun includesStr :: "string \<Rightarrow> string \<Rightarrow> bool" where
  "includesStr [] t = (t = [])"
| "includesStr (c # cs) t = (startsWith (c # cs) t \<or> includesStr cs t)"

definition digitChar :: "nat \<Rightarrow> char" where
  "digitChar d = char_of (48 + d)"

fun natToString :: "nat \<Rightarrow> string" where
  "natToString n = (if n < 10 then [digitChar n] else natToString (n div 10) @ [digitChar (n mod 10)])"

declare natToString.simps [simp del]

text \<open>\<open>Number.prototype.toString\<close> of an integer (below \<open>10^21\<close>, where JavaScript
  still prints plain digits).\<close>

definition intToString :: "int \<Rightarrow> string" where
  "intToString i = (if i < 0 then CHR ''-'' # natToString (nat (- i)) else natToString (nat i))"

text \<open>\<open>toString\<close> of a price of \<open>c\<close> hundredths: \<open>1099\<close> prints as \<open>10.99\<close>,
  \<open>2550\<close> as \<open>25.5\<close> and \<open>500\<close> as \<open>5\<close>, the shortest decimal of the number.\<close>

definition priceToString :: "int \<Rightarrow> string" where
  "priceToString c =
     (let a = nat \<bar>c\<bar>; u = a div 100; f = a mod 100
      in (if c < 0 then ''-'' else '''') @ natToString u @
         (if f = 0 then ''''
          else if f mod 10 = 0 then [CHR ''.'', digitChar (f div 10)]
          else [CHR ''.'', digitChar (f div 10), digitChar (f mod 10)]))"

subsection \<open>parseInt\<close>

definition digitValue :: "char \<Rightarrow> nat option" where
  "digitValue c =
     (let n = (of_char c :: nat)
      in if 48 \<le> n \<and> n \<le> 57 then Some (n - 48)
         else if 97 \<le> n \<and> n \<le> 122 then Some (n - 87)
         else if 65 \<le> n \<and> n \<le> 90 then Some (n - 55)
         else None)"

definition isRadixDigit :: "nat \<Rightarrow> char \<Rightarrow> bool" where
  "isRadixDigit r c = (case digitValue c of None \<Rightarrow> False | Some d \<Rightarrow> d < r)"

definition radixValue :: "nat \<Rightarrow> string \<Rightarrow> nat" where
  "radixValue r z =
     foldl (\<lambda>acc c. acc * r + (case digitValue c of None \<Rightarrow> 0 | Some d \<Rightarrow> d)) 0 z"

text \<open>
  \<open>parseInt(s)\<close> with no radix: leading white space is skipped, one sign is read, a prefix
  \<open>0x\<close> or \<open>0X\<close> switches to radix 16, and the longest run of digits is the value; whatever
  follows is ignored. \<open>None\<close> is \<open>NaN\<close> (no digit at all).
\<close>

definition parseInt :: "string \<Rightarrow> int option" where
  "parseInt inputString =
     (let s0 = trimStart inputString;
          neg = (s0 \<noteq> [] \<and> hd s0 = CHR ''-'');
          s1 = (if s0 \<noteq> [] \<and> (hd s0 = CHR ''+'' \<or> hd s0 = CHR ''-'') then tl s0 else s0);
          hex = (startsWith s1 ''0x'' \<or> startsWith s1 ''0X'');
          r = (if hex then 16 else 10);
          s2 = (if hex then drop 2 s1 else s1);
          z = takeWhile (isRadixDigit r) s2
      in if z = [] then None
         else Some ((if neg then - 1 else 1) * int (radixValue r z)))"

section \<open>Items\<close>

text \<open>
  An item is an object parsed from the JSON array of the backing file. Every property may be
  absent (\<open>None\<close> is \<open>undefined\<close>); a present \<open>id\<close> is an integer, a present \<open>price\<close> a
  number (in hundredths), the other properties are strings.
\<close>

record item =
  item_id :: "int option"
  item_name :: "string option"
  item_price :: "int option"
  item_category :: "string option"
  item_description :: "string option"
  item_createdAt :: "string option"

subsection \<open>The backing file and errors\<close>

text \<open>
  What \<open>fs.readFile\<close> followed by \<open>JSON.parse\<close> can meet: the file is absent (the read is
  rejected with code \<open>ENOENT\<close>), the read is rejected with another error, the text does not
  parse (\<open>JSON.parse\<close> throws a \<open>SyntaxError\<close>, which has no \<open>code\<close>), or the text parses to
  an array of items. The strings are the error messages.
\<close>

datatype file_state =
    FileAbsent
  | FileUnreadable string
  | FileCorrupt string
  | FileData "item list"

text \<open>A thrown \<open>Error\<close>: its message and its \<open>status\<close> property, when one was set.\<close>

datatype js_error = JsError (err_message: string) (err_status: "nat option")

definition readData :: "file_state \<Rightarrow> js_error + item list" where
  "readData file =
     (case file of
        FileData parsed \<Rightarrow> Inr parsed
      | FileAbsent \<Rightarrow> Inr []
      | FileUnreadable msg \<Rightarrow> Inl (JsError msg None)
      | FileCorrupt msg \<Rightarrow> Inl (JsError msg None))"

text \<open>
  Modelled from the spec: the generic error handler that receives \<open>next(err)\<close> is not part
  of the route modules; it answers with the error's status, or 500 when the error has none, and
  the error's message.
\<close>

definition errorResponse :: "js_error \<Rightarrow> nat \<times> string" where
  "errorResponse e = ((case err_status e of None \<Rightarrow> 500 | Some s \<Rightarrow> s), err_message e)"

section \<open>The query pipeline of the items route\<close>

subsection \<open>searchItems\<close>

definition searchableFields :: "item \<Rightarrow> string option list" where
  "searchableFields it =
     [item_name it, item_category it, item_description it,
      map_option intToString (item_id it), map_option priceToString (item_price it)]"

text \<open>\<open>field && field.toString().toLowerCase().includes(searchTerm)\<close>: an absent or empty
  field is falsy.\<close>

definition fieldMatches :: "string \<Rightarrow> string option \<Rightarrow> bool" where
  "fieldMatches searchTerm field =
     (case field of None \<Rightarrow> False
      | Some f \<Rightarrow> f \<noteq> [] \<and> includesStr (toLowerCase f) searchTerm)"

definition searchItems :: "item list \<Rightarrow> string option \<Rightarrow> item list" where
  "searchItems items query =
     (case query of
        None \<Rightarrow> items
      | Some qs \<Rightarrow>
          if qs = [] \<or> trim qs = [] then items
          else let searchTerm = trim (toLowerCase qs)
               in filter (\<lambda>it. list_ex (fieldMatches searchTerm) (searchableFields it)) items)"

subsection \<open>The category step of the list handler\<close>

definition categoryMatches :: "string \<Rightarrow> item \<Rightarrow> bool" where
  "categoryMatches cat it =
     (case item_category it of None \<Rightarrow> False
      | Some ic \<Rightarrow> ic \<noteq> [] \<and> toLowerCase ic = trim (toLowerCase cat))"

definition filterByCategory :: "item list \<Rightarrow> string option \<Rightarrow> item list" where
  "filterByCategory results category =
     (case category of
        None \<Rightarrow> results
      | Some cat \<Rightarrow>
          if cat \<noteq> [] \<and> trim cat \<noteq> [] then filter (categoryMatches cat) results
          else results)"

subsection \<open>sortItems\<close>

text \<open>The value of a property read with \<open>a[field]\<close>.\<close>

datatype jsval = Undefined | Num int | Str string

definition getField :: "item \<Rightarrow> string \<Rightarrow> jsval" where
  "getField it field =
     (let num = (\<lambda>v. case v of None \<Rightarrow> Undefined | Some n \<Rightarrow> Num n);
          str = (\<lambda>v. case v of None \<Rightarrow> Undefined | Some s \<Rightarrow> Str s)
      in if field = ''id'' then num (item_id it)
         else if field = ''name'' then str (item_name it)
         else if field = ''price'' then num (item_price it)
         else if field = ''category'' then str (item_category it)
         else if field = ''description'' then str (item_description it)
         else if field = ''createdAt'' then str (item_createdAt it)
         else Undefined)"

text \<open>
  \<open>x < y\<close> on two property values: numbers by value, strings by code unit, and \<open>undefined\<close>
  converts to \<open>NaN\<close>, which is below and above nothing. Both operands of a comparison are
  read from the same property, so a number never meets a string.
\<close>

fun js_lt :: "jsval \<Rightarrow> jsval \<Rightarrow> bool" where
  "js_lt (Num x) (Num y) = (x < y)"
| "js_lt (Str x) (Str y) = (x < y)"
| "js_lt _ _ = False"

text \<open>
  The comparator handed to \<open>sort\<close>. Only when \<open>aVal\<close> is a string are the two values
  lowercased, and only then is a falsy \<open>bVal\<close> replaced by the empty string.
\<close>

definition compareItems :: "string \<Rightarrow> string \<Rightarrow> item \<Rightarrow> item \<Rightarrow> int" where
  "compareItems field order' a b =
     (let aVal0 = getField a field;
          bVal0 = getField b field;
          aVal = (case aVal0 of Str s \<Rightarrow> Str (toLowerCase s) | _ \<Rightarrow> aVal0);
          bVal = (case aVal0 of
                    Str s \<Rightarrow> Str (case bVal0 of Str t \<Rightarrow> toLowerCase t | _ \<Rightarrow> [])
                  | _ \<Rightarrow> bVal0)
      in if js_lt aVal bVal then (if order' = ''asc'' then - 1 else 1)
         else if js_lt bVal aVal then (if order' = ''asc'' then 1 else - 1)
         else 0)"

text \<open>
  \<open>Array.prototype.sort\<close> with a comparator. ECMAScript fixes the result when the
  comparator is consistent: the stable arrangement in ascending comparator order. \<open>js_sort\<close>
  computes it by inserting each element, from left to right, in front of the first element
  already placed that it is strictly below. With a comparator that is not consistent ECMAScript
  leaves the order to the implementation, and nothing below is stated about the order then.
\<close>

fun insertBy :: "('a \<Rightarrow> 'a \<Rightarrow> int) \<Rightarrow> 'a \<Rightarrow> 'a list \<Rightarrow> 'a list" where
  "insertBy cmp x [] = [x]"
| "insertBy cmp x (y # ys) = (if cmp x y < 0 then x # y # ys else y # insertBy cmp x ys)"

definition js_sort :: "('a \<Rightarrow> 'a \<Rightarrow> int) \<Rightarrow> 'a list \<Rightarrow> 'a list" where
  "js_sort cmp xs = foldl (\<lambda>placed x. insertBy cmp x placed) [] xs"

definition validSortFields :: "string list" where
  "validSortFields = [''id'', ''name'', ''price'', ''category'', ''createdAt'']"

definition sortItems :: "item list \<Rightarrow> string \<Rightarrow> string \<Rightarrow> item list" where
  "sortItems items sortBy sortOrder =
     (let field = (if sortBy \<in> set validSortFields then sortBy else ''id'');
          order' = (if toLowerCase sortOrder = ''desc'' then ''desc'' else ''asc'')
      in js_sort (compareItems field order') items)"

subsection \<open>paginateItems\<close>

text \<open>An argument that is either a number (a default) or a string of the query.\<close>

datatype jsarg = ArgNum int | ArgStr string

fun parseIntArg :: "jsarg \<Rightarrow> int option" where
  "parseIntArg (ArgNum n) = Some n"
| "parseIntArg (ArgStr s) = parseInt s"

text \<open>\<open>parseInt(x) || d\<close>: \<open>NaN\<close> and \<open>0\<close> are falsy.\<close>

definition orDefault :: "int option \<Rightarrow> int \<Rightarrow> int" where
  "orDefault v d = (case v of None \<Rightarrow> d | Some n \<Rightarrow> if n = 0 then d else n)"

text \<open>\<open>xs.slice(start, fin)\<close>: negative indices count from the end, and both are
  clamped to the array.\<close>

definition js_slice :: "'a list \<Rightarrow> int \<Rightarrow> int \<Rightarrow> 'a list" where
  "js_slice xs start fin =
     (let len = int (length xs);
          k = (if start < 0 then max (len + start) 0 else min start len);
          final = (if fin < 0 then max (len + fin) 0 else min fin len)
      in take (nat (final - k)) (drop (nat k) xs))"

text \<open>\<open>Math.ceil(a / b)\<close> for integers \<open>a\<close> and \<open>b \<noteq> 0\<close>.\<close>

definition ceilDiv :: "int \<Rightarrow> int \<Rightarrow> int" where
  "ceilDiv a b = - ((- a) div b)"

record pagination =
  currentPage :: int
  totalPages :: int
  totalItems :: int
  itemsPerPage :: int
  hasNextPage :: bool
  hasPrevPage :: bool
  nextPage :: "int option"
  prevPage :: "int option"

definition makePagination :: "int \<Rightarrow> int \<Rightarrow> int \<Rightarrow> pagination" where
  "makePagination pageNum limitNum totalCount =
     (let pages = ceilDiv totalCount limitNum
      in \<lparr> currentPage = pageNum,
           totalPages = pages,
           totalItems = totalCount,
           itemsPerPage = limitNum,
           hasNextPage = (pageNum < pages),
           hasPrevPage = (pageNum > 1),
           nextPage = (if pageNum < pages then Some (pageNum + 1) else None),
           prevPage = (if pageNum > 1 then Some (pageNum - 1) else None) \<rparr>)"

definition paginateItems :: "item list \<Rightarrow> jsarg \<Rightarrow> jsarg \<Rightarrow> item list \<times> pagination" where
  "paginateItems items page limit =
     (let pageNum = max 1 (orDefault (parseIntArg page) 1);
          limitNum = min 100 (max 1 (orDefault (parseIntArg limit) 10));
          startIndex = (pageNum - 1) * limitNum;
          endIndex = startIndex + limitNum;
          paginatedItems = js_slice items startIndex endIndex
      in (paginatedItems, makePagination pageNum limitNum (int (length items))))"

subsection \<open>GET /api/items\<close>

text \<open>The query string: every parameter is absent or given once, as a string.\<close>

record query_params =
  qp_q :: "string option"
  qp_page :: "string option"
  qp_limit :: "string option"
  qp_sortBy :: "string option"
  qp_sortOrder :: "string option"
  qp_category :: "string option"

record search_meta =
  search_query :: "string option"
  search_category :: "string option"
  search_sortBy :: string
  search_sortOrder :: string
  resultsFound :: int

record page_result =
  page_items :: "item list"
  page_pagination :: pagination
  page_search :: search_meta

text \<open>\<open>x || null\<close> on an optional string: absent and empty both give \<open>null\<close>.\<close>

definition orNull :: "string option \<Rightarrow> string option" where
  "orNull v = (case v of None \<Rightarrow> None | Some s \<Rightarrow> if s = [] then None else Some s)"

definition argOr :: "string option \<Rightarrow> int \<Rightarrow> jsarg" where
  "argOr v d = (case v of None \<Rightarrow> ArgNum d | Some s \<Rightarrow> ArgStr s)"

definition strOr :: "string option \<Rightarrow> string \<Rightarrow> string" where
  "strOr v d = (case v of None \<Rightarrow> d | Some s \<Rightarrow> s)"

text \<open>The handler's \<open>results\<close> once the collection is read: category step, search, sort.\<close>

definition filterAndSort :: "item list \<Rightarrow> query_params \<Rightarrow> item list" where
  "filterAndSort coll req =
     (let searchQuery = qp_q req;
          sortBy = strOr (qp_sortBy req) ''id'';
          sortOrder = strOr (qp_sortOrder req) ''asc'';
          category = qp_category req;
          results1 = filterByCategory coll category;
          results2 = (case searchQuery of None \<Rightarrow> results1
                      | Some qs \<Rightarrow> if qs = [] then results1 else searchItems results1 searchQuery)
      in sortItems results2 sortBy sortOrder)"

text \<open>The rest of the handler: pagination and the response object.\<close>

definition listItems :: "item list \<Rightarrow> query_params \<Rightarrow> page_result" where
  "listItems coll req =
     (let searchQuery = qp_q req;
          page = argOr (qp_page req) 1;
          limit = argOr (qp_limit req) 10;
          sortBy = strOr (qp_sortBy req) ''id'';
          sortOrder = strOr (qp_sortOrder req) ''asc'';
          category = qp_category req;
          results = filterAndSort coll req;
          paginatedResult = paginateItems results page limit
      in \<lparr> page_items = fst paginatedResult,
           page_pagination = snd paginatedResult,
           page_search = \<lparr> search_query = orNull searchQuery,
                            search_category = orNull category,
                            search_sortBy = sortBy,
                            search_sortOrder = sortOrder,
                            resultsFound = int (length results) \<rparr> \<rparr>)"

definition getItems :: "file_state \<Rightarrow> query_params \<Rightarrow> js_error + page_result" where
  "getItems file req =
     (case readData file of
        Inl err \<Rightarrow> Inl err
      | Inr coll \<Rightarrow> Inr (listItems coll req))"

subsection \<open>GET /api/items/:id\<close>

definition getItemById :: "file_state \<Rightarrow> string \<Rightarrow> js_error + item" where
  "getItemById file idParam =
     (case readData file of
        Inl err \<Rightarrow> Inl err
      | Inr coll \<Rightarrow>
          (case parseInt idParam of
             None \<Rightarrow> Inl (JsError ''Invalid item ID'' (Some 400))
           | Some itemId \<Rightarrow>
               (case find (\<lambda>i. item_id i = Some itemId) coll of
                  None \<Rightarrow> Inl (JsError ''Item not found'' (Some 404))
                | Some found \<Rightarrow> Inr found)))"

subsection \<open>The routes of the items router\<close>

datatype http_method = GET | POST | PUT | PATCH | DELETE

datatype items_route = ListItems | ListCategories | ItemById string

text \<open>
  The router registers \<open>get('/')\<close>, \<open>get('/categories')\<close> and \<open>get('/:id')\<close>, tried in
  this order; the path is given by its segments below the mount point. \<open>None\<close>: no route
  matches and the request is passed on.
\<close>

definition itemsRouter :: "http_method \<Rightarrow> string list \<Rightarrow> items_route option" where
  "itemsRouter m path =
     (if m = GET \<and> path = [] then Some ListItems
      else if m = GET \<and> path = [''categories''] then Some ListCategories
      else if m = GET \<and> length path = 1 then Some (ItemById (hd path))
      else None)"

section \<open>The stats route\<close>

record stats =
  stat_total :: nat
  stat_averagePrice :: rat

text \<open>\<open>Math.round\<close>: the nearest integer, a tie going up.\<close>

definition mathRound :: "rat \<Rightarrow> int" where
  "mathRound x = \<lfloor>x + 1 / 2\<rfloor>"

text \<open>
  The source adds, divides and multiplies in IEEE doubles; here the same operations are exact.
  The two agree on the collections evaluated below, but they can part where a hundred times the
  average lies on a half (the prices 1 and 1.01 give 1 in doubles and 1.01 exactly), so nothing
  is stated here about how an average is rounded.
\<close>

text \<open>The price added by the reducer: the number when there is one, else 0.\<close>

definition priceOrZero :: "item \<Rightarrow> rat" where
  "priceOrZero cur = (case item_price cur of None \<Rightarrow> 0 | Some c \<Rightarrow> of_int c / 100)"

definition calculateStats :: "item list \<Rightarrow> stats" where
  "calculateStats items =
     (let totalCount = length items
      in if totalCount = 0 then \<lparr> stat_total = 0, stat_averagePrice = 0 \<rparr>
         else let totalPrice = foldl (\<lambda>acc cur. acc + priceOrZero cur) 0 items;
                  averagePrice = of_int (mathRound ((totalPrice / of_nat totalCount) * 100)) / 100
              in \<lparr> stat_total = totalCount, stat_averagePrice = averagePrice \<rparr>)"

text \<open>The module-level cache object; \<open>None\<close> is the \<open>null\<close> of an empty cache.\<close>

record stats_cache =
  cache_data :: "stats option"
  cache_timestamp :: int
  cache_fileModTime :: int

definition initialCache :: stats_cache where
  "initialCache = \<lparr> cache_data = None, cache_timestamp = 0, cache_fileModTime = 0 \<rparr>"

definition CACHE_TTL :: int where
  "CACHE_TTL = 5 * 60 * 1000"

definition invalidateCache :: "stats_cache \<Rightarrow> stats_cache" where
  "invalidateCache statsCache =
     statsCache\<lparr> cache_data := None, cache_timestamp := 0, cache_fileModTime := 0 \<rparr>"

definition isCacheValid :: "stats_cache \<Rightarrow> int \<Rightarrow> bool" where
  "isCacheValid statsCache now =
     (if cache_data statsCache = None \<or> now - cache_timestamp statsCache > CACHE_TTL
      then False else True)"

text \<open>
  What one request observes of the outside world, in the order it asks: the clock read by the
  handler's validity check, the modification time returned by \<open>getFileModTime\<close> (0 when
  \<open>stat\<close> fails), the clock read by the second validity check, the backing file as
  \<open>readFile\<close> and \<open>JSON.parse\<close> find it, and the clock read when the cache is filled.
\<close>

record stats_env =
  env_now1 :: int
  env_mtime :: int
  env_now2 :: int
  env_file :: file_state
  env_now3 :: int

text \<open>A result, the cache afterwards, and the lines written to the console.\<close>

type_synonym stats_outcome = "(js_error + stats) \<times> stats_cache \<times> string list"

definition emptyStats :: stats where
  "emptyStats = \<lparr> stat_total = 0, stat_averagePrice = 0 \<rparr>"

definition loadAndCacheStats :: "stats_cache \<Rightarrow> stats_env \<Rightarrow> stats_outcome" where
  "loadAndCacheStats statsCache env =
     (let currentFileModTime = env_mtime env;
          cached = (if cache_data statsCache \<noteq> None
                       \<and> cache_fileModTime statsCache = currentFileModTime
                       \<and> isCacheValid statsCache (env_now2 env)
                    then cache_data statsCache else None)
      in case cached of
           Some d \<Rightarrow> (Inr d, statsCache, [])
         | None \<Rightarrow>
            (case env_file env of
               FileData parsed \<Rightarrow>
                 (let s = calculateStats parsed
                  in (Inr s,
                      statsCache\<lparr> cache_data := Some s, cache_timestamp := env_now3 env,
                                  cache_fileModTime := currentFileModTime \<rparr>,
                      [''Stats cache updated'']))
             | FileAbsent \<Rightarrow>
                 (Inr emptyStats,
                  statsCache\<lparr> cache_data := Some emptyStats, cache_timestamp := env_now3 env \<rparr>,
                  [])
             | FileUnreadable msg \<Rightarrow> (Inl (JsError msg None), statsCache, [])
             | FileCorrupt msg \<Rightarrow> (Inl (JsError msg None), statsCache, [])))"

text \<open>\<open>GET /api/stats\<close>. \<open>isCacheValid\<close> holds only of a cache that has data, and that
  data is the body served.\<close>

definition getStats :: "stats_cache \<Rightarrow> stats_env \<Rightarrow> stats_outcome" where
  "getStats statsCache env =
     (case (if isCacheValid statsCache (env_now1 env) then cache_data statsCache else None) of
        Some d \<Rightarrow> (Inr d, statsCache, [''Serving stats from cache''])
      | None \<Rightarrow>
          (case loadAndCacheStats statsCache env of
             (r, c, out) \<Rightarrow> (r, c, ''Loading fresh stats data'' # out)))"

section \<open>The client-side mirror\<close>

text \<open>\<open>processItemsClientSide\<close>: search, then category, then an in-place sort of the copy.\<close>

definition processItemsClientSide :: "item list \<Rightarrow> query_params \<Rightarrow> item list" where
  "processItemsClientSide rawItems searchParams =
     (let sortBy = strOr (qp_sortBy searchParams) ''id'';
          sortOrder = strOr (qp_sortOrder searchParams) ''asc'';
          filtered1 =
            (case qp_q searchParams of
               None \<Rightarrow> rawItems
             | Some qs \<Rightarrow>
                 if qs \<noteq> [] \<and> trim qs \<noteq> []
                 then let searchTerm = trim (toLowerCase qs)
                      in filter (\<lambda>it. list_ex (fieldMatches searchTerm) (searchableFields it))
                           rawItems
                 else rawItems);
          filtered2 =
            (case qp_category searchParams of
               None \<Rightarrow> filtered1
             | Some cat \<Rightarrow>
                 if cat \<noteq> []
                 then filter (\<lambda>it. case item_category it of None \<Rightarrow> False
                                | Some ic \<Rightarrow> ic \<noteq> [] \<and> toLowerCase ic = toLowerCase cat)
                        filtered1
                 else filtered1)
      in if sortBy \<noteq> [] \<and> length filtered2 > 0
         then js_sort (compareItems sortBy sortOrder) filtered2
         else filtered2)"

text \<open>\<open>x || d\<close> on an optional string.\<close>

definition strOrFalsy :: "string option \<Rightarrow> string \<Rightarrow> string" where
  "strOrFalsy v d = (case v of None \<Rightarrow> d | Some s \<Rightarrow> if s = [] then d else s)"

text \<open>The fallback branch of \<open>fetchItems\<close>, from the fetched collection to the page, the
  pagination and the search metadata it stores.\<close>

definition clientListItems :: "item list \<Rightarrow> query_params \<Rightarrow> page_result" where
  "clientListItems rawItems searchParams =
     (let limit = argOr (qp_limit searchParams) 12;
          page = argOr (qp_page searchParams) 1;
          filteredItems = processItemsClientSide rawItems searchParams;
          itemsPerPage' = orDefault (parseIntArg limit) 12;
          currentPage' = orDefault (parseIntArg page) 1;
          startIndex = (currentPage' - 1) * itemsPerPage';
          endIndex = startIndex + itemsPerPage';
          paginatedItems = js_slice filteredItems startIndex endIndex
      in \<lparr> page_items = paginatedItems,
           page_pagination = makePagination currentPage' itemsPerPage' (int (length filteredItems)),
           page_search = \<lparr> search_query = orNull (qp_q searchParams),
                            search_category = orNull (qp_category searchParams),
                            search_sortBy = strOrFalsy (qp_sortBy searchParams) ''id'',
                            search_sortOrder = strOrFalsy (qp_sortOrder searchParams) ''asc'',
                            resultsFound = int (length filteredItems) \<rparr> \<rparr>)"

section \<open>The sample collection of the route tests\<close>

definition testItem1 :: item where
  "testItem1 = \<lparr> item_id = Some 1, item_name = Some ''Test Item 1'', item_price = Some 1099,
       item_category = Some ''electronics'', item_description = None, item_createdAt = None \<rparr>"

definition testItem2 :: item where
  "testItem2 = \<lparr> item_id = Some 2, item_name = Some ''Test Item 2'', item_price = Some 2550,
       item_category = Some ''books'', item_description = None, item_createdAt = None \<rparr>"

definition anotherItem :: item where
  "anotherItem = \<lparr> item_id = Some 3, item_name = Some ''Another Item'', item_price = Some 500,
       item_category = Some ''electronics'', item_description = None, item_createdAt = None \<rparr>"

definition mockItems :: "item list" where
  "mockItems = [testItem1, testItem2, anotherItem]"

definition noQuery :: query_params where
  "noQuery = \<lparr> qp_q = None, qp_page = None, qp_limit = None, qp_sortBy = None,
       qp_sortOrder = None, qp_category = None \<rparr>"

text \<open>An item whose stored category has a leading blank.\<close>

definition paddedItem :: item where
  "paddedItem = \<lparr> item_id = Some 4, item_name = Some ''Padded'', item_price = Some 100,
       item_category = Some '' books'', item_description = None, item_createdAt = None \<rparr>"

text \<open>A first request at time 1000 on an empty cache, the file last modified at 5; a second
  request at time 2000, after the file was rewritten at 7 with one item only.\<close>

definition firstRequest :: stats_env where
  "firstRequest = \<lparr> env_now1 = 1000, env_mtime = 5, env_now2 = 1000,
       env_file = FileData mockItems, env_now3 = 1000 \<rparr>"

definition secondRequest :: stats_env where
  "secondRequest = \<lparr> env_now1 = 2000, env_mtime = 7, env_now2 = 2000,
       env_file = FileData [testItem1], env_now3 = 2000 \<rparr>"

text \<open>A request at time 1000 that finds the file absent, and one that cannot read it.\<close>

definition absentRequest :: stats_env where
  "absentRequest = \<lparr> env_now1 = 1000, env_mtime = 0, env_now2 = 1000,
       env_file = FileAbsent, env_now3 = 1000 \<rparr>"

definition deniedRequest :: stats_env where
  "deniedRequest = \<lparr> env_now1 = 1000, env_mtime = 5, env_now2 = 1000,
       env_file = FileUnreadable ''Permission denied'', env_now3 = 1000 \<rparr>"

text \<open>An item with no category, and one whose category is the empty string.\<close>

definition uncategorisedItem :: item where
  "uncategorisedItem = \<lparr> item_id = Some 7, item_name = Some ''Loose'', item_price = Some 300,
       item_category = None, item_description = None, item_createdAt = None \<rparr>"

definition blankCategoryItem :: item where
  "blankCategoryItem = \<lparr> item_id = Some 8, item_name = Some ''Blank'', item_price = Some 300,
       item_category = Some [], item_description = None, item_createdAt = None \<rparr>"

text \<open>A query that the client mirror and the server both understand.\<close>

definition sampleQuery :: query_params where
  "sampleQuery = \<lparr> qp_q = Some ''item'', qp_page = Some ''1'', qp_limit = Some ''2'',
       qp_sortBy = Some ''price'', qp_sortOrder = Some ''desc'',
       qp_category = Some ''Electronics'' \<rparr>"

section \<open>What the specification says, in its own words\<close>

text \<open>
  Free-text search: an item is kept when any of its name, category, description, stringified id
  or stringified price contains the term, case-insensitively, as a substring.
\<close>

definition hasFieldContaining :: "string \<Rightarrow> item \<Rightarrow> bool" where
  "hasFieldContaining t it \<longleftrightarrow>
     (\<exists>f. (item_name it = Some f \<or> item_category it = Some f \<or> item_description it = Some f
           \<or> map_option intToString (item_id it) = Some f
           \<or> map_option priceToString (item_price it) = Some f)
          \<and> (\<exists>ps ss. toLowerCase f = ps @ t @ ss))"

text \<open>
  Pagination: the limit is clamped to 1..100, with 10 when it is absent, not a number or 0; the
  page is clamped to at least 1, with 1 when it is absent, not a number or 0.
\<close>

definition effectiveLimit :: "string option \<Rightarrow> int" where
  "effectiveLimit v =
     (case v of None \<Rightarrow> 10
      | Some s \<Rightarrow>
          (case parseInt s of None \<Rightarrow> 10
           | Some n \<Rightarrow> if n = 0 then 10 else if n < 1 then 1 else if 100 < n then 100 else n))"

definition effectivePage :: "string option \<Rightarrow> int" where
  "effectivePage v =
     (case v of None \<Rightarrow> 1
      | Some s \<Rightarrow>
          (case parseInt s of None \<Rightarrow> 1
           | Some n \<Rightarrow> if n = 0 then 1 else if n < 1 then 1 else n))"

text \<open>Category filter: the item has a category that equals the query's, case-insensitively.\<close>

definition hasCategory :: "string \<Rightarrow> item \<Rightarrow> bool" where
  "hasCategory c it \<longleftrightarrow> (\<exists>ic. item_category it = Some ic \<and> toLowerCase ic = toLowerCase c)"

text \<open>A request finds nothing to serve from the cache: both validity checks fail.\<close>

definition recomputes :: "stats_cache \<Rightarrow> stats_env \<Rightarrow> bool" where
  "recomputes statsCache env \<longleftrightarrow>
     \<not> isCacheValid statsCache (env_now1 env) \<and> \<not> isCacheValid statsCache (env_now2 env)"

text \<open>The body and status a client sees: a thrown error goes through the error handler.\<close>

definition respond :: "js_error + 'a \<Rightarrow> (nat \<times> string) + 'a" where
  "respond r = (case r of Inl e \<Rightarrow> Inl (errorResponse e) | Inr body \<Rightarrow> Inr body)"

text \<open>The item has the property: reading it does not give \<open>undefined\<close>.\<close>

definition hasField :: "string \<Rightarrow> item \<Rightarrow> bool" where
  "hasField field it \<longleftrightarrow> getField it field \<noteq> Undefined"

text \<open>The keys by which items that have the property are ordered: the number itself, or
  the text in lower case.\<close>

definition numberOf :: "string \<Rightarrow> item \<Rightarrow> int" where
  "numberOf field it = (case getField it field of Num n \<Rightarrow> n | _ \<Rightarrow> 0)"

definition loweredTextOf :: "string \<Rightarrow> item \<Rightarrow> string" where
  "loweredTextOf field it = (case getField it field of Str s \<Rightarrow> toLowerCase s | _ \<Rightarrow> [])"

text \<open>
  Sort: a stable sort by the field, numbers by value and text in lower case; a descending order
  reverses the comparison, not the sorted list, so items with equal keys keep their order.
\<close>

definition stableSortBy :: "string \<Rightarrow> bool \<Rightarrow> item list \<Rightarrow> item list" where
  "stableSortBy field ascending xs =
     (if field = ''id'' \<or> field = ''price''
      then (if ascending then sort_key (numberOf field) xs
            else rev (sort_key (numberOf field) (rev xs)))
      else (if ascending then sort_key (loweredTextOf field) xs
            else rev (sort_key (loweredTextOf field) (rev xs))))"

text \<open>
  The queries on which the client mirror is compared with the server: a limit that parses to
  1..100, a page that is absent or does not parse to a negative integer, a sort field that is
  absent or one of the server's, a sort order that is absent, \<open>asc\<close>, or \<open>desc\<close> in any
  letter case, and a category that is absent or has no white space around it.
\<close>

definition sharedQuery :: "query_params \<Rightarrow> bool" where
  "sharedQuery req \<longleftrightarrow>
     (case qp_limit req of None \<Rightarrow> False
      | Some s \<Rightarrow> (case parseInt s of None \<Rightarrow> False | Some n \<Rightarrow> 1 \<le> n \<and> n \<le> 100))
     \<and> (case qp_page req of None \<Rightarrow> True
        | Some s \<Rightarrow> (case parseInt s of None \<Rightarrow> True | Some n \<Rightarrow> 0 \<le> n))
     \<and> (case qp_sortBy req of None \<Rightarrow> True | Some s \<Rightarrow> s \<in> set validSortFields)
     \<and> (case qp_sortOrder req of None \<Rightarrow> True
        | Some s \<Rightarrow> s = ''asc'' \<or> toLowerCase s = ''desc'')
     \<and> (case qp_category req of None \<Rightarrow> True | Some c \<Rightarrow> trim c = c)"

section \<open>Strings\<close>

lemma startsWith_iff: "startsWith s t \<longleftrightarrow> (\<exists>ss. s = t @ ss)"
  by (induction s t rule: startsWith.induct) auto

lemma includesStr_iff: "includesStr s t \<longleftrightarrow> (\<exists>ps ss. s = ps @ t @ ss)"
proof (induction s)
  case Nil
  show ?case by auto
next
  case (Cons c cs)
  have "(\<exists>ps ss. c # cs = ps @ t @ ss) \<longleftrightarrow> (\<exists>ss. c # cs = t @ ss) \<or> (\<exists>ps ss. cs = ps @ t @ ss)"
  proof
    assume "\<exists>ps ss. c # cs = ps @ t @ ss"
    then obtain ps ss where e: "c # cs = ps @ t @ ss" by blast
    show "(\<exists>ss. c # cs = t @ ss) \<or> (\<exists>ps ss. cs = ps @ t @ ss)"
    proof (cases ps)
      case Nil
      with e show ?thesis by auto
    next
      case (Cons p ps')
      with e have "cs = ps' @ t @ ss" by simp
      then show ?thesis by blast
    qed
  next
    assume "(\<exists>ss. c # cs = t @ ss) \<or> (\<exists>ps ss. cs = ps @ t @ ss)"
    then show "\<exists>ps ss. c # cs = ps @ t @ ss"
    proof
      assume "\<exists>ss. c # cs = t @ ss"
      then obtain ss where "c # cs = [] @ t @ ss" by auto
      then show ?thesis by blast
    next
      assume "\<exists>ps ss. cs = ps @ t @ ss"
      then obtain ps ss where "cs = ps @ t @ ss" by blast
      then have "c # cs = (c # ps) @ t @ ss" by simp
      then show ?thesis by blast
    qed
  qed
  with Cons show ?case by (simp add: startsWith_iff)
qed

lemma isWhiteSpace_toLowerChar: "isWhiteSpace (toLowerChar c) = isWhiteSpace c"
  by (auto simp: isWhiteSpace_def toLowerChar_def Let_def)

lemma dropWhile_ws_toLowerCase:
  "dropWhile isWhiteSpace (toLowerCase s) = toLowerCase (dropWhile isWhiteSpace s)"
  by (induction s) (simp_all add: toLowerCase_def isWhiteSpace_toLowerChar)

lemma trim_toLowerCase: "trim (toLowerCase s) = toLowerCase (trim s)"
proof -
  have r: "rev (toLowerCase s) = toLowerCase (rev s)" for s
    by (simp add: toLowerCase_def rev_map)
  show ?thesis
    by (simp add: trim_def trimStart_def trimEnd_def dropWhile_ws_toLowerCase r)
qed

lemma toLowerCase_Nil_iff: "toLowerCase s = [] \<longleftrightarrow> s = []"
  by (simp add: toLowerCase_def)

lemma trim_empty_of_Nil: "trim [] = []"
  by (simp add: trim_def trimStart_def trimEnd_def)

lemma trimEnd_decomp: "s = trimEnd s @ rev (takeWhile isWhiteSpace (rev s))"
proof -
  have "trimEnd s @ rev (takeWhile isWhiteSpace (rev s))
        = rev (takeWhile isWhiteSpace (rev s) @ dropWhile isWhiteSpace (rev s))"
    by (simp only: trimEnd_def rev_append)
  also have "\<dots> = s"
    by (simp only: takeWhile_dropWhile_id rev_rev_ident)
  finally show ?thesis by simp
qed

lemma trimEnd_last: "trimEnd s \<noteq> [] \<Longrightarrow> \<not> isWhiteSpace (last (trimEnd s))"
  unfolding trimEnd_def by (metis hd_dropWhile last_rev rev_is_Nil_conv)

lemma trimStart_hd: "trimStart s \<noteq> [] \<Longrightarrow> \<not> isWhiteSpace (hd (trimStart s))"
  unfolding trimStart_def by (rule hd_dropWhile)

lemma trim_ends:
  assumes "trim s \<noteq> []"
  shows "\<not> isWhiteSpace (hd (trim s))" and "\<not> isWhiteSpace (last (trim s))"
proof -
  let ?y = "trimStart s"
  from assms have ne: "trimEnd ?y \<noteq> []" by (simp add: trim_def)
  have "?y = trimEnd ?y @ rev (takeWhile isWhiteSpace (rev ?y))" by (rule trimEnd_decomp)
  with ne have "hd ?y = hd (trimEnd ?y)" by (metis hd_append2)
  moreover from ne have "?y \<noteq> []" by (auto simp: trimEnd_def)
  ultimately show "\<not> isWhiteSpace (hd (trim s))"
    using trimStart_hd [of s] by (simp add: trim_def)
  from ne show "\<not> isWhiteSpace (last (trim s))"
    using trimEnd_last [of ?y] by (simp add: trim_def)
qed

section \<open>Free-text search\<close>

lemma fieldMatches_iff:
  assumes "t \<noteq> []"
  shows "list_ex (fieldMatches t) (searchableFields it) \<longleftrightarrow> hasFieldContaining t it"
proof -
  have m: "fieldMatches t v \<longleftrightarrow> (\<exists>f. v = Some f \<and> (\<exists>ps ss. toLowerCase f = ps @ t @ ss))" for v
  proof (cases v)
    case None
    then show ?thesis by (simp add: fieldMatches_def)
  next
    case (Some f)
    have "f = [] \<Longrightarrow> \<not> (\<exists>ps ss. toLowerCase f = ps @ t @ ss)"
      using assms by (simp add: toLowerCase_def)
    with Some show ?thesis
      by (auto simp: fieldMatches_def includesStr_iff)
  qed
  show ?thesis
    unfolding hasFieldContaining_def searchableFields_def list_ex_iff
    by (simp add: m) blast
qed

lemma searchItems_nonempty_term:
  assumes "trim q \<noteq> []"
  shows "searchItems items (Some q) = filter (hasFieldContaining (toLowerCase (trim q))) items"
proof -
  from assms have q: "q \<noteq> []" by (auto simp: trim_empty_of_Nil)
  from assms have t: "toLowerCase (trim q) \<noteq> []" by (simp add: toLowerCase_Nil_iff)
  show ?thesis
    using assms q fieldMatches_iff [OF t]
    by (simp add: searchItems_def trim_toLowerCase cong: filter_cong)
qed

lemma searchItems_blank: "trim q = [] \<Longrightarrow> searchItems items (Some q) = items"
  by (simp add: searchItems_def)

lemma searchItems_TEST: "searchItems mockItems (Some ''TEST'') = [testItem1, testItem2]"
  by code_simp

lemma trim_TEST: "trim ''TEST'' = ''TEST''"
  by code_simp

lemma trim_blank: "trim ''  '' = []"
  by code_simp

text \<open>
  Claim C6. For every item list and every search string \<open>q\<close> that trims to non-empty,
  \<open>searchItems\<close> keeps exactly the items of which at least one of name, category, description,
  stringified id and stringified price contains the trimmed, lowercased term as a substring of
  its lowercased text (containment only, any field); a \<open>q\<close> that trims to empty leaves the list
  as it is; and \<open>TEST\<close> over the items named Test Item 1, Test Item 2 and Another Item returns
  the two Test items.
\<close>

theorem searchItems_keeps_exactly_matching:
  "(trim q \<noteq> [] \<longrightarrow>
      searchItems items (Some q) = filter (hasFieldContaining (toLowerCase (trim q))) items)
   \<and> (trim q = [] \<longrightarrow> searchItems items (Some q) = items)
   \<and> searchItems mockItems (Some ''TEST'') = [testItem1, testItem2]"
  using searchItems_nonempty_term searchItems_blank searchItems_TEST by blast

theorem searchItems_keeps_exactly_matching_witness:
  "trim ''TEST'' \<noteq> [] \<and> trim ''  '' = []
   \<and> filter (hasFieldContaining (toLowerCase (trim ''TEST''))) mockItems = [testItem1, testItem2]
   \<and> searchItems mockItems (Some ''  '') = mockItems"
  using searchItems_keeps_exactly_matching [of "''TEST''" mockItems]
    searchItems_keeps_exactly_matching [of "''  ''" mockItems]
  by (simp add: trim_TEST trim_blank)

section \<open>The category filter\<close>

lemma categoryMatches_iff:
  assumes "trim cat \<noteq> []"
  shows "categoryMatches cat it \<longleftrightarrow> hasCategory (trim cat) it"
proof -
  from assms have t: "toLowerCase (trim cat) \<noteq> []" by (simp add: toLowerCase_Nil_iff)
  show ?thesis
  proof (cases "item_category it")
    case None
    then show ?thesis by (simp add: categoryMatches_def hasCategory_def)
  next
    case (Some ic)
    have "toLowerCase ic = toLowerCase (trim cat) \<Longrightarrow> ic \<noteq> []"
      using t by (auto simp: toLowerCase_def)
    with Some show ?thesis
      by (auto simp: categoryMatches_def hasCategory_def trim_toLowerCase)
  qed
qed

lemma filterByCategory_exact:
  assumes "trim cat \<noteq> []"
  shows "filterByCategory items (Some cat) = filter (hasCategory (trim cat)) items"
proof -
  from assms have "cat \<noteq> []" by (auto simp: trim_empty_of_Nil)
  with assms show ?thesis
    by (simp add: filterByCategory_def categoryMatches_iff [OF assms] cong: filter_cong)
qed

lemma categoryMatches_needs_category:
  "categoryMatches cat it \<Longrightarrow> item_category it \<noteq> None \<and> item_category it \<noteq> Some []"
  by (auto simp: categoryMatches_def split: option.splits)

lemma padded_category_never_matches:
  assumes ic: "item_category it = Some ic" "ic \<noteq> []"
    and pad: "isWhiteSpace (hd ic) \<or> isWhiteSpace (last ic)"
  shows "\<not> categoryMatches cat it"
proof
  assume "categoryMatches cat it"
  with ic have e: "toLowerCase ic = trim (toLowerCase cat)"
    by (simp add: categoryMatches_def)
  from ic have ne: "toLowerCase ic \<noteq> []" by (simp add: toLowerCase_Nil_iff)
  with e have tne: "trim (toLowerCase cat) \<noteq> []" by simp
  have h: "hd (toLowerCase ic) = toLowerChar (hd ic)"
    using ic by (simp add: toLowerCase_def hd_map)
  have l: "last (toLowerCase ic) = toLowerChar (last ic)"
    using ic by (simp add: toLowerCase_def last_map)
  from trim_ends [OF tne] e
  have "\<not> isWhiteSpace (hd (toLowerCase ic))" "\<not> isWhiteSpace (last (toLowerCase ic))"
    by simp_all
  with h l pad show False by (simp add: isWhiteSpace_toLowerChar)
qed

text \<open>
  Claim C10. For every query whose category is non-empty after trimming, the category step of
  the list handler keeps exactly the items that have a category whose lowercased value equals
  the lowercased, trimmed query category; an item with no category or an empty one is never
  kept; and an item whose stored category begins or ends with white space is kept for no query
  category, because the stored value is compared untrimmed.
\<close>

theorem category_filter_exact:
  "trim cat \<noteq> [] \<Longrightarrow>
     filterByCategory items (Some cat) = filter (hasCategory (trim cat)) items
     \<and> (\<forall>it \<in> set (filterByCategory items (Some cat)).
           item_category it \<noteq> None \<and> item_category it \<noteq> Some [])
     \<and> (\<forall>(it::item) ic. item_category it = Some ic \<and> ic \<noteq> []
           \<and> (isWhiteSpace (hd ic) \<or> isWhiteSpace (last ic))
           \<longrightarrow> it \<notin> set (filterByCategory items (Some cat)))"
proof (intro conjI ballI allI impI)
  assume a: "trim cat \<noteq> []"
  then have c: "cat \<noteq> []" by (auto simp: trim_empty_of_Nil)
  show "filterByCategory items (Some cat) = filter (hasCategory (trim cat)) items"
    by (rule filterByCategory_exact [OF a])
  { fix it assume "it \<in> set (filterByCategory items (Some cat))"
    with a c have "categoryMatches cat it" by (simp add: filterByCategory_def)
    then show "item_category it \<noteq> None" "item_category it \<noteq> Some []"
      using categoryMatches_needs_category by blast+ }
  { fix it :: item and ic
    assume "item_category it = Some ic \<and> ic \<noteq> [] \<and> (isWhiteSpace (hd ic) \<or> isWhiteSpace (last ic))"
    then have "\<not> categoryMatches cat it" using padded_category_never_matches by blast
    with a c show "it \<notin> set (filterByCategory items (Some cat))"
      by (simp add: filterByCategory_def) }
qed

lemma trim_Books: "trim '' Books '' = ''Books''"
  by code_simp
lemma ws_space: "isWhiteSpace (hd '' books'')"
  by code_simp

theorem category_filter_exact_witness:
  "trim '' Books '' \<noteq> []
   \<and> filter (hasCategory (trim '' Books '')) (paddedItem # mockItems) = [testItem2]
   \<and> paddedItem \<notin> set (filterByCategory (paddedItem # mockItems) (Some '' Books ''))"
proof -
  have h: "trim '' Books '' \<noteq> []" by (simp add: trim_Books)
  have v: "filterByCategory (paddedItem # mockItems) (Some '' Books '') = [testItem2]"
    by code_simp
  have p: "item_category paddedItem = Some '' books'' \<and> '' books'' \<noteq> []
           \<and> (isWhiteSpace (hd '' books'') \<or> isWhiteSpace (last '' books''))"
    using ws_space by (simp add: paddedItem_def)
  from category_filter_exact [OF h, of "paddedItem # mockItems"]
  have 1: "filterByCategory (paddedItem # mockItems) (Some '' Books '')
           = filter (hasCategory (trim '' Books '')) (paddedItem # mockItems)"
    and 2: "\<forall>(it::item) ic. item_category it = Some ic \<and> ic \<noteq> []
           \<and> (isWhiteSpace (hd ic) \<or> isWhiteSpace (last ic))
           \<longrightarrow> it \<notin> set (filterByCategory (paddedItem # mockItems) (Some '' Books ''))"
    by blast+
  from 2 p have "paddedItem \<notin> set (filterByCategory (paddedItem # mockItems) (Some '' Books ''))"
    by blast
  with h 1 v show ?thesis by simp
qed

section \<open>Pagination of the list handler\<close>

lemma length_insertBy: "length (insertBy cmp x ys) = Suc (length ys)"
  by (induction ys) simp_all

lemma length_foldl_insertBy:
  "length (foldl (\<lambda>placed x. insertBy cmp x placed) acc xs) = length acc + length xs"
  by (induction xs arbitrary: acc) (simp_all add: length_insertBy)

lemma length_js_sort: "length (js_sort cmp xs) = length xs"
  by (simp add: js_sort_def length_foldl_insertBy)

lemma length_sortItems: "length (sortItems items sb so) = length items"
  by (simp add: sortItems_def Let_def length_js_sort)

lemma js_slice_window:
  assumes "0 \<le> start" "0 \<le> l"
  shows "js_slice xs start (start + l) = take (nat l) (drop (nat start) xs)"
proof -
  let ?len = "int (length xs)"
  consider (inside) "start + l \<le> ?len" | (partial) "start \<le> ?len" "?len < start + l"
    | (outside) "?len < start" by linarith
  then show ?thesis
  proof cases
    case inside
    with assms show ?thesis by (simp add: js_slice_def Let_def min_def)
  next
    case partial
    then have "length (drop (nat start) xs) \<le> nat l" "length (drop (nat start) xs) \<le> nat (?len - start)"
      using assms by simp_all
    then have "take (nat l) (drop (nat start) xs) = take (nat (?len - start)) (drop (nat start) xs)"
      by simp
    with partial assms show ?thesis by (simp add: js_slice_def Let_def min_def)
  next
    case outside
    with assms show ?thesis by (simp add: js_slice_def Let_def min_def)
  qed
qed

lemma ceilDiv_ceiling: "ceilDiv a b = \<lceil>(of_int a :: rat) / of_int b\<rceil>"
proof -
  have "\<lceil>(of_int a :: rat) / of_int b\<rceil> = - \<lfloor>(of_int (- a) :: rat) / of_int b\<rfloor>"
    by (simp add: ceiling_def)
  then show ?thesis
    by (simp only: ceilDiv_def floor_divide_of_int_eq)
qed

lemma effectiveLimit_eq: "min 100 (max 1 (orDefault (parseIntArg (argOr v 10)) 10)) = effectiveLimit v"
  by (auto simp: effectiveLimit_def orDefault_def argOr_def split: option.splits)

lemma effectivePage_eq: "max 1 (orDefault (parseIntArg (argOr v 1)) 1) = effectivePage v"
  by (auto simp: effectivePage_def orDefault_def argOr_def split: option.splits)

lemma effectiveLimit_range: "1 \<le> effectiveLimit v \<and> effectiveLimit v \<le> 100"
  by (auto simp: effectiveLimit_def split: option.splits)

lemma effectivePage_range: "1 \<le> effectivePage v"
  by (auto simp: effectivePage_def split: option.splits)

lemma beyond_last_page:
  assumes "1 \<le> l" "ceilDiv n l < p"
  shows "n \<le> (p - 1) * l"
proof -
  from assms(2) have "\<lceil>(of_int n :: rat) / of_int l\<rceil> \<le> p - 1"
    by (simp add: ceilDiv_ceiling)
  then have "(of_int n :: rat) / of_int l \<le> of_int (p - 1)"
    by (simp only: ceiling_le_iff)
  with assms(1) have "(of_int n :: rat) \<le> of_int (p - 1) * of_int l"
    by (simp add: pos_divide_le_eq)
  then have "(of_int n :: rat) \<le> of_int ((p - 1) * l)" by simp
  then show ?thesis by (simp only: of_int_le_iff)
qed

lemma listItems_fields:
  "page_items (listItems coll req)
     = take (nat (effectiveLimit (qp_limit req)))
         (drop (nat ((effectivePage (qp_page req) - 1) * effectiveLimit (qp_limit req)))
            (filterAndSort coll req))"
  "page_pagination (listItems coll req)
     = makePagination (effectivePage (qp_page req)) (effectiveLimit (qp_limit req))
         (int (length (filterAndSort coll req)))"
  "resultsFound (page_search (listItems coll req)) = int (length (filterAndSort coll req))"
proof -
  have w: "0 \<le> (effectivePage (qp_page req) - 1) * effectiveLimit (qp_limit req)"
    using effectivePage_range [of "qp_page req"] effectiveLimit_range [of "qp_limit req"]
    by simp
  have l: "0 \<le> effectiveLimit (qp_limit req)"
    using effectiveLimit_range [of "qp_limit req"] by simp
  show "page_items (listItems coll req)
     = take (nat (effectiveLimit (qp_limit req)))
         (drop (nat ((effectivePage (qp_page req) - 1) * effectiveLimit (qp_limit req)))
            (filterAndSort coll req))"
    by (simp add: listItems_def paginateItems_def Let_def effectiveLimit_eq effectivePage_eq
        js_slice_window [OF w l])
  show "page_pagination (listItems coll req)
     = makePagination (effectivePage (qp_page req)) (effectiveLimit (qp_limit req))
         (int (length (filterAndSort coll req)))"
    by (simp add: listItems_def paginateItems_def Let_def effectiveLimit_eq effectivePage_eq)
  show "resultsFound (page_search (listItems coll req)) = int (length (filterAndSort coll req))"
    by (simp add: listItems_def Let_def)
qed


lemma length_window:
  assumes "0 \<le> w" "0 \<le> l"
  shows "int (length (take (nat l) (drop (nat w) xs))) = min l (max 0 (int (length xs) - w))"
proof -
  have a: "int (length xs - nat w) = max 0 (int (length xs) - w)"
    using assms(1) by linarith
  have b: "int (nat l) = l" using assms(2) by simp
  have "int (length (take (nat l) (drop (nat w) xs))) = min (int (nat l)) (int (length xs - nat w))"
    by (simp only: length_take length_drop of_nat_min)
  then show ?thesis by (simp only: a b)
qed

lemma effectiveLimit_0: "effectiveLimit (Some ''0'') = 10"
  by code_simp

lemma effectiveLimit_200: "effectiveLimit (Some ''200'') = 100"
  by code_simp

text \<open>
  Claim C1. For every collection and every query, the response of the list handler keeps the
  pagination contract: the limit is the query's limit clamped to 1..100 (10 when it is absent,
  not a number or 0, so \<open>limit=0\<close> gives 10 and \<open>limit=200\<close> gives 100), the page
  is clamped to at least 1 and not from above, \<open>totalItems\<close> equals \<open>resultsFound\<close>, the
  number of items returned is \<open>min(limit, max(0, resultsFound - (page-1)*limit))\<close>, the items
  returned are the window from \<open>(page-1)*limit\<close> of length \<open>limit\<close> of the filtered and
  sorted sequence, \<open>totalPages\<close> is the ceiling of \<open>resultsFound / limit\<close>, and a page beyond
  it has no items.
\<close>

theorem listItems_pagination_contract:
  "let r = listItems coll req;
       p = page_pagination r;
       limit = itemsPerPage p;
       page = currentPage p;
       found = resultsFound (page_search r);
       window = (page - 1) * limit
   in limit = effectiveLimit (qp_limit req) \<and> 1 \<le> limit \<and> limit \<le> 100
      \<and> page = effectivePage (qp_page req) \<and> 1 \<le> page
      \<and> found = int (length (filterAndSort coll req))
      \<and> totalItems p = found
      \<and> int (length (page_items r)) = min limit (max 0 (found - window))
      \<and> page_items r = take (nat limit) (drop (nat window) (filterAndSort coll req))
      \<and> totalPages p = \<lceil>(of_int found :: rat) / of_int limit\<rceil>
      \<and> (totalPages p < page \<longrightarrow> page_items r = [])
      \<and> effectiveLimit (Some ''0'') = 10 \<and> effectiveLimit (Some ''200'') = 100"
proof -
  let ?l = "effectiveLimit (qp_limit req)" and ?p = "effectivePage (qp_page req)"
  let ?rs = "filterAndSort coll req"
  let ?n = "int (length ?rs)"
  have lr: "1 \<le> ?l" "?l \<le> 100" using effectiveLimit_range by simp_all
  have pr: "1 \<le> ?p" by (rule effectivePage_range)
  have w: "0 \<le> (?p - 1) * ?l" using lr pr by simp
  have len: "int (length (take (nat ?l) (drop (nat ((?p - 1) * ?l)) ?rs)))
             = min ?l (max 0 (?n - (?p - 1) * ?l))"
    using lr w by (simp add: length_window)
  have beyond: "take (nat ?l) (drop (nat ((?p - 1) * ?l)) ?rs) = []"
    if "ceilDiv ?n ?l < ?p"
  proof -
    from beyond_last_page [OF lr(1) that] have "length ?rs \<le> nat ((?p - 1) * ?l)" by simp
    then show ?thesis by simp
  qed
  show ?thesis
    unfolding Let_def listItems_fields
    using lr pr len beyond effectiveLimit_0 effectiveLimit_200
    by (simp add: makePagination_def Let_def ceilDiv_ceiling)
qed

lemma out_of_range_example:
  "listItems mockItems (noQuery\<lparr>qp_limit := Some ''2'', qp_page := Some ''7''\<rparr>)
   = \<lparr> page_items = [],
       page_pagination = \<lparr> currentPage = 7, totalPages = 2, totalItems = 3, itemsPerPage = 2,
          hasNextPage = False, hasPrevPage = True, nextPage = None, prevPage = Some 6 \<rparr>,
       page_search = \<lparr> search_query = None, search_category = None, search_sortBy = ''id'',
          search_sortOrder = ''asc'', resultsFound = 3 \<rparr> \<rparr>"
  by code_simp

theorem listItems_pagination_contract_witness:
  "totalPages (page_pagination (listItems mockItems (noQuery\<lparr>qp_limit := Some ''2'', qp_page := Some ''7''\<rparr>)))
     < currentPage (page_pagination (listItems mockItems (noQuery\<lparr>qp_limit := Some ''2'', qp_page := Some ''7''\<rparr>)))
   \<and> page_items (listItems mockItems (noQuery\<lparr>qp_limit := Some ''2'', qp_page := Some ''7''\<rparr>)) = []
   \<and> totalPages (page_pagination (listItems mockItems (noQuery\<lparr>qp_limit := Some ''2'', qp_page := Some ''7''\<rparr>))) = \<lceil>(3 :: rat) / 2\<rceil>"
  using listItems_pagination_contract [of mockItems "noQuery\<lparr>qp_limit := Some ''2'', qp_page := Some ''7''\<rparr>"]
  by (simp add: out_of_range_example Let_def)

section \<open>The computed stats\<close>

text \<open>The count and the guard against an empty collection do not depend on how numbers are
  rounded.\<close>

lemma calculateStats_total: "stat_total (calculateStats items) = length items"
  by (simp add: calculateStats_def Let_def)

lemma calculateStats_empty: "stat_averagePrice (calculateStats []) = 0"
  by (simp add: calculateStats_def)

section \<open>An absent backing file\<close>

lemma js_sort_Nil: "js_sort cmp [] = []"
  by (simp add: js_sort_def)

lemma filterAndSort_Nil: "filterAndSort [] req = []"
  by (simp add: filterAndSort_def Let_def filterByCategory_def searchItems_def sortItems_def
      js_sort_Nil split: option.splits)

lemma js_slice_Nil: "js_slice [] a b = []"
  by (simp add: js_slice_def)

lemma listItems_Nil:
  "page_items (listItems [] req) = [] \<and> totalItems (page_pagination (listItems [] req)) = 0
   \<and> resultsFound (page_search (listItems [] req)) = 0"
  by (simp add: listItems_def Let_def filterAndSort_Nil paginateItems_def js_slice_Nil
      makePagination_def)

lemma readData_cases:
  "readData FileAbsent = Inr []"
  "readData (FileData parsed) = Inr parsed"
  "readData (FileUnreadable msg) = Inl (JsError msg None)"
  "readData (FileCorrupt msg) = Inl (JsError msg None)"
  by (simp_all add: readData_def)

lemma getItems_no_items:
  assumes "file = FileAbsent \<or> file = FileData []"
  shows "getItems file req = Inr (listItems [] req)"
  using assms by (auto simp: getItems_def readData_cases)

lemma isCacheValid_after_fill:
  "now - t \<le> CACHE_TTL \<Longrightarrow> isCacheValid (c\<lparr>cache_data := Some d, cache_timestamp := t\<rparr>) now"
  by (simp add: isCacheValid_def)

lemma getStats_absent:
  assumes "recomputes c env" "env_file env = FileAbsent"
  shows "getStats c env
         = (Inr emptyStats, c\<lparr>cache_data := Some emptyStats, cache_timestamp := env_now3 env\<rparr>,
            [''Loading fresh stats data''])"
  using assms by (simp add: getStats_def loadAndCacheStats_def recomputes_def Let_def)

lemma getStats_fails:
  assumes "recomputes c env" "env_file env = FileUnreadable msg \<or> env_file env = FileCorrupt msg"
  shows "getStats c env = (Inl (JsError msg None), c, [''Loading fresh stats data''])"
  using assms by (auto simp: getStats_def loadAndCacheStats_def recomputes_def Let_def)

lemma getStats_served:
  assumes "cache_data c = Some d" "env_now1 env - cache_timestamp c \<le> CACHE_TTL"
  shows "getStats c env = (Inr d, c, [''Serving stats from cache''])"
  using assms by (simp add: getStats_def isCacheValid_def)

text \<open>
  Claim C8. An absent backing file is never an error. \<open>readData\<close> answers the empty
  sequence when the file is absent, and an error for every other failure of the read or of the
  parse; the list handler, on an absent file or on a file holding the empty collection, answers
  no items and \<open>totalItems\<close> 0, whatever the query. A stats request that recomputes and finds
  the file absent answers \<open>{total: 0, averagePrice: 0}\<close> and stores it in the cache with the
  current time, so that every request within the time to live is served from the cache without
  another read; when the read or the parse fails otherwise, the request fails with that error
  and the cache is left as it was.
\<close>

theorem absent_file_is_not_an_error:
  "readData FileAbsent = Inr []
   \<and> readData (FileUnreadable msg) = Inl (JsError msg None)
   \<and> readData (FileCorrupt msg) = Inl (JsError msg None)
   \<and> (file = FileAbsent \<or> file = FileData [] \<longrightarrow>
        (\<exists>r. getItems file req = Inr r \<and> page_items r = []
             \<and> totalItems (page_pagination r) = 0))
   \<and> (recomputes c env \<and> env_file env = FileAbsent \<longrightarrow>
        (\<exists>c'. getStats c env = (Inr emptyStats, c', [''Loading fresh stats data''])
           \<and> cache_data c' = Some emptyStats
           \<and> cache_timestamp c' = env_now3 env
           \<and> (\<forall>env'. env_now1 env' - env_now3 env \<le> CACHE_TTL \<longrightarrow>
                 getStats c' env' = (Inr emptyStats, c', [''Serving stats from cache'']))))
   \<and> (recomputes c env \<and> (env_file env = FileUnreadable msg \<or> env_file env = FileCorrupt msg) \<longrightarrow>
        getStats c env = (Inl (JsError msg None), c, [''Loading fresh stats data'']))
   \<and> emptyStats = \<lparr> stat_total = 0, stat_averagePrice = 0 \<rparr>"
proof (intro conjI impI)
  show "readData FileAbsent = Inr []"
    "readData (FileUnreadable msg) = Inl (JsError msg None)"
    "readData (FileCorrupt msg) = Inl (JsError msg None)"
    by (simp_all add: readData_cases)
  show "emptyStats = \<lparr> stat_total = 0, stat_averagePrice = 0 \<rparr>"
    by (simp add: emptyStats_def)
next
  assume "file = FileAbsent \<or> file = FileData []"
  then have "getItems file req = Inr (listItems [] req)" by (rule getItems_no_items)
  with listItems_Nil [of req]
  show "\<exists>r. getItems file req = Inr r \<and> page_items r = [] \<and> totalItems (page_pagination r) = 0"
    by blast
next
  assume a: "recomputes c env \<and> env_file env = FileAbsent"
  let ?c = "c\<lparr>cache_data := Some emptyStats, cache_timestamp := env_now3 env\<rparr>"
  from a have g: "getStats c env = (Inr emptyStats, ?c, [''Loading fresh stats data''])"
    using getStats_absent [of c env] by blast
  have d: "cache_data ?c = Some emptyStats" and t: "cache_timestamp ?c = env_now3 env"
    by simp_all
  have s: "\<forall>env'. env_now1 env' - env_now3 env \<le> CACHE_TTL \<longrightarrow>
                 getStats ?c env' = (Inr emptyStats, ?c, [''Serving stats from cache''])"
  proof (intro allI impI)
    fix env' :: stats_env
    assume "env_now1 env' - env_now3 env \<le> CACHE_TTL"
    then have "env_now1 env' - cache_timestamp ?c \<le> CACHE_TTL" by (simp only: t)
    with d show "getStats ?c env' = (Inr emptyStats, ?c, [''Serving stats from cache''])"
      by (rule getStats_served)
  qed
  from g d t s
  show "\<exists>c'. getStats c env = (Inr emptyStats, c', [''Loading fresh stats data''])
           \<and> cache_data c' = Some emptyStats
           \<and> cache_timestamp c' = env_now3 env
           \<and> (\<forall>env'. env_now1 env' - env_now3 env \<le> CACHE_TTL \<longrightarrow>
                 getStats c' env' = (Inr emptyStats, c', [''Serving stats from cache'']))"
    by (intro exI [of _ ?c] conjI)
next
  assume "recomputes c env \<and> (env_file env = FileUnreadable msg \<or> env_file env = FileCorrupt msg)"
  then show "getStats c env = (Inl (JsError msg None), c, [''Loading fresh stats data''])"
    using getStats_fails [of c env msg] by blast
qed

lemma recomputes_initial: "recomputes initialCache env"
  by (simp add: recomputes_def isCacheValid_def initialCache_def)

theorem absent_file_is_not_an_error_witness:
  "recomputes initialCache absentRequest \<and> env_file absentRequest = FileAbsent
   \<and> (\<exists>c'. getStats initialCache absentRequest
              = (Inr emptyStats, c', [''Loading fresh stats data''])
           \<and> cache_data c' = Some emptyStats)
   \<and> recomputes initialCache deniedRequest
   \<and> env_file deniedRequest = FileUnreadable ''Permission denied''
   \<and> getStats initialCache deniedRequest
       = (Inl (JsError ''Permission denied'' None), initialCache, [''Loading fresh stats data''])
   \<and> (\<exists>r. getItems FileAbsent noQuery = Inr r \<and> page_items r = []
          \<and> totalItems (page_pagination r) = 0)"
proof -
  have a: "recomputes initialCache absentRequest \<and> env_file absentRequest = FileAbsent"
    by (simp add: recomputes_initial absentRequest_def)
  have d: "recomputes initialCache deniedRequest
           \<and> (env_file deniedRequest = FileUnreadable ''Permission denied''
                \<or> env_file deniedRequest = FileCorrupt ''Permission denied'')"
    by (simp add: recomputes_initial deniedRequest_def)
  have f: "FileAbsent = FileAbsent \<or> FileAbsent = FileData []" by simp
  from absent_file_is_not_an_error
         [of "''Permission denied''" FileAbsent noQuery initialCache absentRequest]
       a f
  have 1: "\<exists>c'. getStats initialCache absentRequest
              = (Inr emptyStats, c', [''Loading fresh stats data''])
           \<and> cache_data c' = Some emptyStats"
    and 2: "\<exists>r. getItems FileAbsent noQuery = Inr r \<and> page_items r = []
          \<and> totalItems (page_pagination r) = 0"
    by blast+
  from absent_file_is_not_an_error
         [of "''Permission denied''" FileAbsent noQuery initialCache deniedRequest]
       d
  have 3: "getStats initialCache deniedRequest
       = (Inl (JsError ''Permission denied'' None), initialCache, [''Loading fresh stats data''])"
    by blast
  have e: "env_file deniedRequest = FileUnreadable ''Permission denied''"
    by (simp add: deniedRequest_def)
  from a d e 1 2 3 show ?thesis by blast
qed

section \<open>The stats cache and a changed file\<close>

lemma getStats_valid_ignores_file:
  assumes "isCacheValid c (env_now1 env)"
  shows "getStats c (env\<lparr> env_mtime := m, env_file := f \<rparr>) = getStats c env"
proof -
  from assms obtain d where "cache_data c = Some d"
    by (auto simp: isCacheValid_def split: if_splits)
  with assms show ?thesis by (simp add: getStats_def)
qed

text \<open>
  Claim C2. A cached value is to be served only when the cache has data, its age is within the
  time to live and the file's modification time is the recorded one. The handler returns as
  soon as \<open>isCacheValid\<close> holds, which compares no modification time: after a first request
  at time 1000 has filled the cache from a file modified at 5, a second request at time 2000,
  when the file was rewritten at 7 and holds one item, is still answered with the stats of the
  three items, from the cache, and nothing is recomputed.
\<close>

theorem stale_stats_served_after_file_change:
  "getStats initialCache firstRequest
     = (Inr \<lparr> stat_total = 3, stat_averagePrice = 1383 / 100 \<rparr>,
        \<lparr> cache_data = Some \<lparr> stat_total = 3, stat_averagePrice = 1383 / 100 \<rparr>,
          cache_timestamp = 1000, cache_fileModTime = 5 \<rparr>,
        [''Loading fresh stats data'', ''Stats cache updated''])
   \<and> env_mtime secondRequest = 7
   \<and> env_now1 secondRequest - 1000 < CACHE_TTL
   \<and> getStats \<lparr> cache_data = Some \<lparr> stat_total = 3, stat_averagePrice = 1383 / 100 \<rparr>,
                 cache_timestamp = 1000, cache_fileModTime = 5 \<rparr> secondRequest
     = (Inr \<lparr> stat_total = 3, stat_averagePrice = 1383 / 100 \<rparr>,
        \<lparr> cache_data = Some \<lparr> stat_total = 3, stat_averagePrice = 1383 / 100 \<rparr>,
          cache_timestamp = 1000, cache_fileModTime = 5 \<rparr>,
        [''Serving stats from cache''])
   \<and> env_file secondRequest = FileData [testItem1]
   \<and> calculateStats [testItem1] = \<lparr> stat_total = 1, stat_averagePrice = 1099 / 100 \<rparr>"
  by code_simp

section \<open>Creating an item\<close>

text \<open>
  Claim C5. Creating an item and fetching it by the id returned is to give back the same
  object. The items router has no route for \<open>POST\<close>: whatever the path, the request matches
  none of its three \<open>GET\<close> routes and is passed on, so nothing is created and no id is
  returned.
\<close>

theorem items_router_has_no_create_route:
  "itemsRouter POST path = None"
  by (simp add: itemsRouter_def)

section \<open>Fetching an item by id\<close>

lemma find_None_iff_no_id:
  "find (\<lambda>i. item_id i = Some n) coll = None \<longleftrightarrow> (\<forall>i \<in> set coll. item_id i \<noteq> Some n)"
  by (auto simp: find_None_iff)

lemma getItemById_read:
  assumes "readData file = Inr coll"
  shows "getItemById file idParam =
     (case parseInt idParam of
        None \<Rightarrow> Inl (JsError ''Invalid item ID'' (Some 400))
      | Some itemId \<Rightarrow>
          (case find (\<lambda>i. item_id i = Some itemId) coll of
             None \<Rightarrow> Inl (JsError ''Item not found'' (Some 404))
           | Some found \<Rightarrow> Inr found))"
  using assms by (simp add: getItemById_def)

lemma getItemById_unread:
  assumes "readData file = Inl e"
  shows "getItemById file idParam = Inl e"
  using assms by (simp add: getItemById_def)

text \<open>
  Claim C4, as amended. The handler of \<open>GET /api/items/:id\<close> reads the collection first.
  When the read succeeds (an absent file reads as the empty collection): if \<open>parseInt\<close> finds
  no integer at the start of \<open>:id\<close> the response is 400 with message \<open>Invalid item ID\<close>; if
  it finds one and no item has it as id the response is 404 with message \<open>Item not found\<close>;
  otherwise the first item with that id is returned. When the read or the parse of the file
  fails, the response is 500 with the error's message, whatever \<open>:id\<close> is.
\<close>

theorem getItemById_reads_then_validates:
  "(readData file = Inr coll \<and> parseInt idParam = None \<longrightarrow>
      respond (getItemById file idParam) = Inl (400, ''Invalid item ID''))
   \<and> (readData file = Inr coll \<and> parseInt idParam = Some n
        \<and> (\<forall>i \<in> set coll. item_id i \<noteq> Some n) \<longrightarrow>
      respond (getItemById file idParam) = Inl (404, ''Item not found''))
   \<and> (readData file = Inr coll \<and> parseInt idParam = Some n
        \<and> find (\<lambda>i. item_id i = Some n) coll = Some it \<longrightarrow>
      respond (getItemById file idParam) = Inr it)
   \<and> (readData file = Inl e \<longrightarrow>
      respond (getItemById file idParam) = Inl (errorResponse e))
   \<and> (file = FileUnreadable msg \<or> file = FileCorrupt msg \<longrightarrow>
      respond (getItemById file idParam) = Inl (500, msg))"
proof (intro conjI impI)
  assume "readData file = Inr coll \<and> parseInt idParam = None"
  then show "respond (getItemById file idParam) = Inl (400, ''Invalid item ID'')"
    by (simp add: getItemById_read respond_def errorResponse_def)
next
  assume a: "readData file = Inr coll \<and> parseInt idParam = Some n
        \<and> (\<forall>i \<in> set coll. item_id i \<noteq> Some n)"
  then have "find (\<lambda>i. item_id i = Some n) coll = None"
    by (simp add: find_None_iff_no_id)
  with a show "respond (getItemById file idParam) = Inl (404, ''Item not found'')"
    by (simp add: getItemById_read respond_def errorResponse_def)
next
  assume "readData file = Inr coll \<and> parseInt idParam = Some n
        \<and> find (\<lambda>i. item_id i = Some n) coll = Some it"
  then show "respond (getItemById file idParam) = Inr it"
    by (simp add: getItemById_read respond_def)
next
  assume "readData file = Inl e"
  then show "respond (getItemById file idParam) = Inl (errorResponse e)"
    by (simp add: getItemById_unread respond_def)
next
  assume "file = FileUnreadable msg \<or> file = FileCorrupt msg"
  then have "readData file = Inl (JsError msg None)"
    by (auto simp: readData_def)
  then show "respond (getItemById file idParam) = Inl (500, msg)"
    by (simp add: getItemById_unread respond_def errorResponse_def)
qed

lemma parseInt_abc: "parseInt ''abc'' = None"
  by code_simp

lemma parseInt_999: "parseInt ''999'' = Some 999"
  by code_simp

lemma parseInt_2: "parseInt ''2'' = Some 2"
  by code_simp

lemma find_2: "find (\<lambda>i. item_id i = Some 2) mockItems = Some testItem2"
  by code_simp

lemma no_999: "\<forall>i \<in> set mockItems. item_id i \<noteq> Some 999"
  by (simp add: mockItems_def testItem1_def testItem2_def anotherItem_def)

theorem getItemById_reads_then_validates_witness:
  "readData (FileData mockItems) = Inr mockItems \<and> parseInt ''abc'' = None
   \<and> respond (getItemById (FileData mockItems) ''abc'') = Inl (400, ''Invalid item ID'')
   \<and> parseInt ''999'' = Some 999
   \<and> respond (getItemById (FileData mockItems) ''999'') = Inl (404, ''Item not found'')
   \<and> parseInt ''2'' = Some 2 \<and> find (\<lambda>i. item_id i = Some 2) mockItems = Some testItem2
   \<and> respond (getItemById (FileData mockItems) ''2'') = Inr testItem2
   \<and> respond (getItemById (FileUnreadable ''Permission denied'') ''abc'')
       = Inl (500, ''Permission denied'')"
proof -
  have r: "readData (FileData mockItems) = Inr mockItems" by (simp add: readData_def)
  have u: "FileUnreadable ''Permission denied'' = FileUnreadable ''Permission denied''
           \<or> FileUnreadable ''Permission denied'' = FileCorrupt ''Permission denied''" by simp
  from getItemById_reads_then_validates
         [of "FileData mockItems" mockItems "''abc''" 0 testItem2 "JsError [] None" "[]"] r parseInt_abc
  have 1: "respond (getItemById (FileData mockItems) ''abc'') = Inl (400, ''Invalid item ID'')"
    by blast
  from getItemById_reads_then_validates
         [of "FileData mockItems" mockItems "''999''" 999 testItem2 "JsError [] None" "[]"]
       r parseInt_999 no_999
  have 2: "respond (getItemById (FileData mockItems) ''999'') = Inl (404, ''Item not found'')"
    by blast
  from getItemById_reads_then_validates
         [of "FileData mockItems" mockItems "''2''" 2 testItem2 "JsError [] None" "[]"]
       r parseInt_2 find_2
  have 3: "respond (getItemById (FileData mockItems) ''2'') = Inr testItem2"
    by blast
  from getItemById_reads_then_validates
         [of "FileUnreadable ''Permission denied''" mockItems "''abc''" 0 testItem2 "JsError [] None"
            "''Permission denied''"] u
  have 4: "respond (getItemById (FileUnreadable ''Permission denied'') ''abc'')
       = Inl (500, ''Permission denied'')"
    by blast
  from r parseInt_abc parseInt_999 parseInt_2 find_2 no_999 1 2 3 4 show ?thesis by blast
qed

text \<open>
  With an unreadable file the request for the id \<open>abc\<close> is answered 500, not 400; and the id
  \<open>2abc\<close>, which is not an integer, is answered with item 2.
\<close>

theorem getItemById_validation_counterexample:
  "respond (getItemById (FileUnreadable ''Permission denied'') ''abc'')
     = Inl (500, ''Permission denied'')
   \<and> respond (getItemById (FileData mockItems) ''2abc'') = Inr testItem2"
  by code_simp

section \<open>The client mirror on the shared queries\<close>

lemma compareItems_order:
  "(o1 = ''asc'') = (o2 = ''asc'') \<Longrightarrow> compareItems f o1 = compareItems f o2"
  by (intro ext) (simp add: compareItems_def)

lemma toLowerCase_asc: "toLowerCase ''asc'' = ''asc''"
  by code_simp

lemma sortItems_shared:
  assumes "case sb of None \<Rightarrow> True | Some s \<Rightarrow> s \<in> set validSortFields"
    and "case so of None \<Rightarrow> True | Some s \<Rightarrow> s = ''asc'' \<or> toLowerCase s = ''desc''"
  shows "sortItems xs (strOr sb ''id'') (strOr so ''asc'')
         = js_sort (compareItems (strOr sb ''id'') (strOr so ''asc'')) xs"
proof -
  have f: "strOr sb ''id'' \<in> set validSortFields"
    using assms(1) by (cases sb) (simp_all add: strOr_def validSortFields_def)
  have "((if toLowerCase (strOr so ''asc'') = ''desc'' then ''desc'' else ''asc'') = ''asc'')
        = (strOr so ''asc'' = ''asc'')"
    using assms(2) toLowerCase_asc by (cases so) (auto simp: strOr_def)
  then have "compareItems (strOr sb ''id'')
               (if toLowerCase (strOr so ''asc'') = ''desc'' then ''desc'' else ''asc'')
             = compareItems (strOr sb ''id'') (strOr so ''asc'')"
    by (rule compareItems_order)
  with f show ?thesis by (simp add: sortItems_def Let_def)
qed

lemma client_category_shared:
  assumes "trim cat = cat" "cat \<noteq> []"
  shows "(case item_category it of None \<Rightarrow> False
          | Some ic \<Rightarrow> ic \<noteq> [] \<and> toLowerCase ic = toLowerCase cat) = categoryMatches cat it"
proof -
  have "trim (toLowerCase cat) = toLowerCase cat"
    using trim_toLowerCase [of cat] assms(1) by simp
  then show ?thesis by (simp add: categoryMatches_def split: option.splits)
qed

lemma filters_shared:
  assumes "case cat of None \<Rightarrow> True | Some c \<Rightarrow> trim c = c"
  shows "(case cat of
            None \<Rightarrow> (case qq of None \<Rightarrow> coll
                     | Some qs \<Rightarrow> if qs \<noteq> [] \<and> trim qs \<noteq> []
                         then filter (\<lambda>it. list_ex (fieldMatches (trim (toLowerCase qs))) (searchableFields it)) coll
                         else coll)
          | Some c \<Rightarrow>
              if c \<noteq> []
              then filter (\<lambda>it. case item_category it of None \<Rightarrow> False
                            | Some ic \<Rightarrow> ic \<noteq> [] \<and> toLowerCase ic = toLowerCase c)
                     (case qq of None \<Rightarrow> coll
                      | Some qs \<Rightarrow> if qs \<noteq> [] \<and> trim qs \<noteq> []
                         then filter (\<lambda>it. list_ex (fieldMatches (trim (toLowerCase qs))) (searchableFields it)) coll
                         else coll)
              else (case qq of None \<Rightarrow> coll
                    | Some qs \<Rightarrow> if qs \<noteq> [] \<and> trim qs \<noteq> []
                         then filter (\<lambda>it. list_ex (fieldMatches (trim (toLowerCase qs))) (searchableFields it)) coll
                         else coll))
         = (case qq of None \<Rightarrow> filterByCategory coll cat
            | Some qs \<Rightarrow> if qs = [] then filterByCategory coll cat
                else searchItems (filterByCategory coll cat) qq)"
proof (cases cat)
  case None
  then show ?thesis
    by (cases qq) (simp_all add: filterByCategory_def searchItems_def)
next
  case (Some c)
  with assms have t: "trim c = c" by simp
  show ?thesis
  proof (cases "c = []")
    case True
    with Some show ?thesis
      by (cases qq) (simp_all add: filterByCategory_def searchItems_def)
  next
    case False
    with t have m: "(case item_category it of None \<Rightarrow> False
                     | Some ic \<Rightarrow> ic \<noteq> [] \<and> toLowerCase ic = toLowerCase c)
                    = categoryMatches c it" for it
      by (rule client_category_shared)
    from Some False t show ?thesis
      by (cases qq) (simp_all add: filterByCategory_def searchItems_def m conj_commute)
  qed
qed

lemma shared_sortBy_nonempty:
  assumes "case sb of None \<Rightarrow> True | Some s \<Rightarrow> s \<in> set validSortFields"
  shows "strOr sb ''id'' \<noteq> []" and "strOrFalsy sb ''id'' = strOr sb ''id''"
  using assms by (cases sb; auto simp: strOr_def strOrFalsy_def validSortFields_def)+

lemma shared_sortOrder_nonempty:
  assumes "case so of None \<Rightarrow> True | Some s \<Rightarrow> s = ''asc'' \<or> toLowerCase s = ''desc''"
  shows "strOrFalsy so ''asc'' = strOr so ''asc''"
  using assms by (cases so) (auto simp: strOr_def strOrFalsy_def toLowerCase_def)

lemma processItemsClientSide_shared:
  assumes "sharedQuery req"
  shows "processItemsClientSide coll req = filterAndSort coll req"
proof -
  from assms have sb: "case qp_sortBy req of None \<Rightarrow> True | Some s \<Rightarrow> s \<in> set validSortFields"
    and so: "case qp_sortOrder req of None \<Rightarrow> True
             | Some s \<Rightarrow> s = ''asc'' \<or> toLowerCase s = ''desc''"
    and cat: "case qp_category req of None \<Rightarrow> True | Some c \<Rightarrow> trim c = c"
    by (simp_all add: sharedQuery_def)
  show ?thesis
    unfolding processItemsClientSide_def filterAndSort_def Let_def
    unfolding filters_shared [OF cat]
    by (simp add: sortItems_shared [OF sb so] js_sort_Nil shared_sortBy_nonempty [OF sb])
qed

lemma shared_limit:
  assumes "case lv of None \<Rightarrow> False
           | Some s \<Rightarrow> (case parseInt s of None \<Rightarrow> False | Some n \<Rightarrow> 1 \<le> n \<and> n \<le> 100)"
  shows "orDefault (parseIntArg (argOr lv 12)) 12
         = min 100 (max 1 (orDefault (parseIntArg (argOr lv 10)) 10))"
  using assms by (auto simp: orDefault_def argOr_def split: option.splits)

lemma shared_page:
  assumes "case pg of None \<Rightarrow> True
           | Some s \<Rightarrow> (case parseInt s of None \<Rightarrow> True | Some n \<Rightarrow> 0 \<le> n)"
  shows "orDefault (parseIntArg (argOr pg 1)) 1 = max 1 (orDefault (parseIntArg (argOr pg 1)) 1)"
  using assms by (auto simp: orDefault_def argOr_def split: option.splits)

section \<open>Sorting items that all have the sort field\<close>

text \<open>
  When the comparator agrees with the order of a key on the elements of the list, \<open>js_sort\<close>
  is the stable sort by that key. For \<open>sortItems\<close> this covers the lists in which every item
  has the sort field: ascending or descending by id, an unknown field falling back to id, and
  names compared in lower case.
\<close>

lemma mset_insertBy: "mset (insertBy cmp x ys) = add_mset x (mset ys)"
  by (induction ys) simp_all

lemma mset_foldl_insertBy:
  "mset (foldl (\<lambda>placed x. insertBy cmp x placed) acc xs) = mset acc + mset xs"
  by (induction xs arbitrary: acc) (simp_all add: mset_insertBy)

lemma mset_js_sort: "mset (js_sort cmp xs) = mset xs"
  by (simp add: js_sort_def mset_foldl_insertBy)

lemma set_insertBy: "set (insertBy cmp x ys) = insert x (set ys)"
  by (induction ys) auto

lemma sorted_insertBy:
  fixes key :: "'a \<Rightarrow> 'k::linorder"
  assumes "\<And>y. y \<in> set ys \<Longrightarrow> cmp x y < 0 \<longleftrightarrow> key x < key y" "sorted (map key ys)"
  shows "sorted (map key (insertBy cmp x ys))"
  using assms
proof (induction ys)
  case Nil
  then show ?case by simp
next
  case (Cons y ys)
  then show ?case
    by (auto simp: set_insertBy)
qed

lemma filter_insertBy_other:
  "key x \<noteq> k \<Longrightarrow> filter (\<lambda>y. key y = k) (insertBy cmp x ys) = filter (\<lambda>y. key y = k) ys"
  by (induction ys) simp_all

lemma filter_insertBy_same:
  fixes key :: "'a \<Rightarrow> 'k::linorder"
  assumes "\<And>y. y \<in> set ys \<Longrightarrow> cmp x y < 0 \<longleftrightarrow> key x < key y" "sorted (map key ys)"
  shows "filter (\<lambda>y. key y = key x) (insertBy cmp x ys) = filter (\<lambda>y. key y = key x) ys @ [x]"
  using assms
proof (induction ys)
  case Nil
  then show ?case by simp
next
  case (Cons y ys)
  show ?case
  proof (cases "key x < key y")
    case True
    with Cons.prems(2) have "\<forall>z \<in> set (y # ys). key z \<noteq> key x" by auto
    then have "filter (\<lambda>y. key y = key x) (y # ys) = []" by (simp add: filter_empty_conv)
    with True Cons.prems(1) show ?thesis by simp
  next
    case False
    with Cons show ?thesis by simp
  qed
qed

lemma foldl_insertBy_stable_sorted:
  fixes key :: "'a \<Rightarrow> 'k::linorder"
  assumes rel: "\<And>x y. x \<in> S \<Longrightarrow> y \<in> S \<Longrightarrow> cmp x y < 0 \<longleftrightarrow> key x < key y"
    and "set acc \<subseteq> S" "set xs \<subseteq> S" "sorted (map key acc)"
  shows "sorted (map key (foldl (\<lambda>placed x. insertBy cmp x placed) acc xs))
         \<and> filter (\<lambda>y. key y = k) (foldl (\<lambda>placed x. insertBy cmp x placed) acc xs)
             = filter (\<lambda>y. key y = k) acc @ filter (\<lambda>y. key y = k) xs"
  using assms(2-)
proof (induction xs arbitrary: acc)
  case Nil
  then show ?case by simp
next
  case (Cons x xs)
  have r: "cmp x y < 0 \<longleftrightarrow> key x < key y" if "y \<in> set acc" for y
    using that Cons.prems(1,2) rel [of x y] by auto
  have s: "sorted (map key (insertBy cmp x acc))"
    using r Cons.prems(3) by (rule sorted_insertBy)
  have m: "set (insertBy cmp x acc) \<subseteq> S"
    using Cons.prems(1,2) by (simp add: set_insertBy)
  have t: "set xs \<subseteq> S" using Cons.prems(2) by simp
  have f: "filter (\<lambda>y. key y = k) (insertBy cmp x acc)
           = filter (\<lambda>y. key y = k) acc @ filter (\<lambda>y. key y = k) [x]"
  proof (cases "key x = k")
    case True
    then show ?thesis
      using filter_insertBy_same [of acc cmp x key, OF r Cons.prems(3)] by simp
  next
    case False
    then show ?thesis by (simp add: filter_insertBy_other)
  qed
  from Cons.IH [OF m t s] f show ?case by simp
qed

lemma js_sort_is_stable_sort:
  fixes key :: "'a \<Rightarrow> 'k::linorder"
  assumes "\<And>x y. x \<in> set xs \<Longrightarrow> y \<in> set xs \<Longrightarrow> cmp x y < 0 \<longleftrightarrow> key x < key y"
  shows "js_sort cmp xs = sort_key key xs"
proof -
  have a: "sorted (map key (js_sort cmp xs))"
    and b: "filter (\<lambda>y. key y = k) (js_sort cmp xs) = filter (\<lambda>y. key y = k) xs" for k
    using foldl_insertBy_stable_sorted [where cmp = cmp and key = key and acc = "[]"
        and xs = xs and k = k and S = "set xs", OF assms]
    by (simp_all add: js_sort_def)
  have "sort_key key xs = js_sort cmp xs"
  proof (rule properties_for_sort_key)
    show "mset (js_sort cmp xs) = mset xs" by (rule mset_js_sort)
    show "sorted (map key (js_sort cmp xs))" by (rule a)
    show "filter (\<lambda>x. key k = key x) (js_sort cmp xs) = filter (\<lambda>x. key k = key x) xs" for k
      using b [of "key k"] by (simp add: eq_commute)
  qed
  then show ?thesis by simp
qed

lemma compareItems_id:
  assumes "item_id a = Some i" "item_id b = Some j"
  shows "compareItems ''id'' ''asc'' a b < 0 \<longleftrightarrow> i < j"
    and "compareItems ''id'' ''desc'' a b < 0 \<longleftrightarrow> - i < - j"
  using assms by (simp_all add: compareItems_def getField_def)

lemma compareItems_name:
  assumes "item_name a = Some s" "item_name b = Some t"
  shows "compareItems ''name'' ''asc'' a b < 0 \<longleftrightarrow> toLowerCase s < toLowerCase t"
  using assms by (simp add: compareItems_def getField_def)

lemma sortItems_by_id:
  assumes "\<forall>it \<in> set xs. item_id it \<noteq> None"
  shows "sortItems xs ''id'' ''asc'' = sort_key (\<lambda>it. the (item_id it)) xs"
    and "sortItems xs ''id'' ''DESC'' = sort_key (\<lambda>it. - the (item_id it)) xs"
    and "sortItems xs ''rank'' ''asc'' = sort_key (\<lambda>it. the (item_id it)) xs"
proof -
  have f: "''id'' \<in> set validSortFields" "''rank'' \<notin> set validSortFields"
    by (simp_all add: validSortFields_def)
  have l: "toLowerCase ''asc'' \<noteq> ''desc''" "toLowerCase ''DESC'' = ''desc''"
    by code_simp+
  have asc: "compareItems ''id'' ''asc'' x y < 0 \<longleftrightarrow> the (item_id x) < the (item_id y)"
    and desc: "compareItems ''id'' ''desc'' x y < 0 \<longleftrightarrow> - the (item_id x) < - the (item_id y)"
    if "x \<in> set xs" "y \<in> set xs" for x y
    using that assms compareItems_id [of x "the (item_id x)" y "the (item_id y)"] by auto
  show "sortItems xs ''id'' ''asc'' = sort_key (\<lambda>it. the (item_id it)) xs"
    using f l js_sort_is_stable_sort [of xs "compareItems ''id'' ''asc''", OF asc]
    by (simp add: sortItems_def)
  show "sortItems xs ''id'' ''DESC'' = sort_key (\<lambda>it. - the (item_id it)) xs"
    using f l js_sort_is_stable_sort [of xs "compareItems ''id'' ''desc''", OF desc]
    by (simp add: sortItems_def)
  show "sortItems xs ''rank'' ''asc'' = sort_key (\<lambda>it. the (item_id it)) xs"
    using f l js_sort_is_stable_sort [of xs "compareItems ''id'' ''asc''", OF asc]
    by (simp add: sortItems_def)
qed

lemma sortItems_by_name:
  assumes "\<forall>it \<in> set xs. item_name it \<noteq> None"
  shows "sortItems xs ''name'' ''asc'' = sort_key (\<lambda>it. toLowerCase (the (item_name it))) xs"
proof -
  have f: "''name'' \<in> set validSortFields" by (simp add: validSortFields_def)
  have l: "toLowerCase ''asc'' \<noteq> ''desc''" by code_simp
  have asc: "compareItems ''name'' ''asc'' x y < 0
             \<longleftrightarrow> toLowerCase (the (item_name x)) < toLowerCase (the (item_name y))"
    if "x \<in> set xs" "y \<in> set xs" for x y
    using that assms compareItems_name [of x "the (item_name x)" y "the (item_name y)"] by auto
  show ?thesis
    using f l js_sort_is_stable_sort [of xs "compareItems ''name'' ''asc''", OF asc]
    by (simp add: sortItems_def)
qed

lemma sorted_insertBy_desc:
  fixes key :: "'a \<Rightarrow> 'k::linorder"
  assumes "\<And>y. y \<in> set ys \<Longrightarrow> cmp x y < 0 \<longleftrightarrow> key y < key x"
    and "sorted_wrt (\<lambda>a b. key b \<le> key a) ys"
  shows "sorted_wrt (\<lambda>a b. key b \<le> key a) (insertBy cmp x ys)"
  using assms
proof (induction ys)
  case Nil
  then show ?case by simp
next
  case (Cons y ys)
  then show ?case
    by (auto simp: set_insertBy)
qed

lemma filter_insertBy_same_desc:
  fixes key :: "'a \<Rightarrow> 'k::linorder"
  assumes "\<And>y. y \<in> set ys \<Longrightarrow> cmp x y < 0 \<longleftrightarrow> key y < key x"
    and "sorted_wrt (\<lambda>a b. key b \<le> key a) ys"
  shows "filter (\<lambda>y. key y = key x) (insertBy cmp x ys) = filter (\<lambda>y. key y = key x) ys @ [x]"
  using assms
proof (induction ys)
  case Nil
  then show ?case by simp
next
  case (Cons y ys)
  show ?case
  proof (cases "key y < key x")
    case True
    with Cons.prems(2) have "\<forall>z \<in> set (y # ys). key z \<noteq> key x" by auto
    then have "filter (\<lambda>y. key y = key x) (y # ys) = []" by (simp add: filter_empty_conv)
    with True Cons.prems(1) show ?thesis by simp
  next
    case False
    with Cons show ?thesis by simp
  qed
qed

lemma foldl_insertBy_stable_sorted_desc:
  fixes key :: "'a \<Rightarrow> 'k::linorder"
  assumes rel: "\<And>x y. x \<in> S \<Longrightarrow> y \<in> S \<Longrightarrow> cmp x y < 0 \<longleftrightarrow> key y < key x"
    and "set acc \<subseteq> S" "set xs \<subseteq> S" "sorted_wrt (\<lambda>a b. key b \<le> key a) acc"
  shows "sorted_wrt (\<lambda>a b. key b \<le> key a) (foldl (\<lambda>placed x. insertBy cmp x placed) acc xs)
         \<and> filter (\<lambda>y. key y = k) (foldl (\<lambda>placed x. insertBy cmp x placed) acc xs)
             = filter (\<lambda>y. key y = k) acc @ filter (\<lambda>y. key y = k) xs"
  using assms(2-)
proof (induction xs arbitrary: acc)
  case Nil
  then show ?case by simp
next
  case (Cons x xs)
  have r: "cmp x y < 0 \<longleftrightarrow> key y < key x" if "y \<in> set acc" for y
    using that Cons.prems(1,2) rel [of x y] by auto
  have s: "sorted_wrt (\<lambda>a b. key b \<le> key a) (insertBy cmp x acc)"
    using r Cons.prems(3) by (rule sorted_insertBy_desc)
  have m: "set (insertBy cmp x acc) \<subseteq> S"
    using Cons.prems(1,2) by (simp add: set_insertBy)
  have t: "set xs \<subseteq> S" using Cons.prems(2) by simp
  have f: "filter (\<lambda>y. key y = k) (insertBy cmp x acc)
           = filter (\<lambda>y. key y = k) acc @ filter (\<lambda>y. key y = k) [x]"
  proof (cases "key x = k")
    case True
    then show ?thesis
      using filter_insertBy_same_desc [of acc cmp x key, OF r Cons.prems(3)] by simp
  next
    case False
    then show ?thesis by (simp add: filter_insertBy_other)
  qed
  from Cons.IH [OF m t s] f show ?case by simp
qed

lemma js_sort_is_stable_sort_desc:
  fixes key :: "'a \<Rightarrow> 'k::linorder"
  assumes "\<And>x y. x \<in> set xs \<Longrightarrow> y \<in> set xs \<Longrightarrow> cmp x y < 0 \<longleftrightarrow> key y < key x"
  shows "js_sort cmp xs = rev (sort_key key (rev xs))"
proof -
  have a: "sorted_wrt (\<lambda>a b. key b \<le> key a) (js_sort cmp xs)"
    and b: "filter (\<lambda>y. key y = k) (js_sort cmp xs) = filter (\<lambda>y. key y = k) xs" for k
    using foldl_insertBy_stable_sorted_desc [where cmp = cmp and key = key and acc = "[]"
        and xs = xs and k = k and S = "set xs", OF assms]
    by (simp_all add: js_sort_def)
  have "sort_key key (rev xs) = rev (js_sort cmp xs)"
  proof (rule properties_for_sort_key)
    show "mset (rev (js_sort cmp xs)) = mset (rev xs)" by (simp add: mset_js_sort)
    show "sorted (map key (rev (js_sort cmp xs)))"
      using a by (simp add: sorted_wrt_map sorted_wrt_rev)
    show "filter (\<lambda>x. key k = key x) (rev (js_sort cmp xs)) = filter (\<lambda>x. key k = key x) (rev xs)"
      for k
      using b [of "key k"] by (simp add: eq_commute rev_filter [symmetric])
  qed
  then show ?thesis by simp
qed

lemma getField_id: "getField it ''id'' = (case item_id it of None \<Rightarrow> Undefined | Some n \<Rightarrow> Num n)"
  by (simp add: getField_def)

lemma getField_price:
  "getField it ''price'' = (case item_price it of None \<Rightarrow> Undefined | Some n \<Rightarrow> Num n)"
  by (simp add: getField_def)

lemma getField_text:
  assumes "f \<noteq> ''id''" "f \<noteq> ''price''"
  shows "getField it f = Undefined \<or> (\<exists>s. getField it f = Str s)"
proof -
  have o: "(case v of None \<Rightarrow> Undefined | Some s \<Rightarrow> Str s) = Undefined
           \<or> (\<exists>s. (case v of None \<Rightarrow> Undefined | Some s \<Rightarrow> Str s) = Str s)" for v :: "string option"
    by (cases v) simp_all
  consider "f = ''name''" | "f = ''category''" | "f = ''description''" | "f = ''createdAt''"
    | "f \<noteq> ''name''" "f \<noteq> ''category''" "f \<noteq> ''description''" "f \<noteq> ''createdAt''"
    by blast
  then show ?thesis
  proof cases
    case 1 then show ?thesis using o [of "item_name it"] by (simp add: getField_def)
  next
    case 2 then show ?thesis using o [of "item_category it"] by (simp add: getField_def)
  next
    case 3 then show ?thesis using o [of "item_description it"] by (simp add: getField_def)
  next
    case 4 then show ?thesis using o [of "item_createdAt it"] by (simp add: getField_def)
  next
    case 5 with assms show ?thesis by (simp add: getField_def)
  qed
qed

lemma hasField_kind:
  assumes "hasField f it"
  shows "(f = ''id'' \<or> f = ''price'') \<and> getField it f = Num (numberOf f it)
         \<or> (f \<noteq> ''id'' \<and> f \<noteq> ''price'') \<and> (\<exists>s. getField it f = Str s)"
proof -
  consider "f = ''id''" | "f = ''price''" | "f \<noteq> ''id''" "f \<noteq> ''price''" by blast
  then show ?thesis
  proof cases
    case 1
    with assms obtain n where "item_id it = Some n"
      by (cases "item_id it") (simp_all add: hasField_def getField_id)
    with 1 show ?thesis by (simp add: getField_id numberOf_def)
  next
    case 2
    with assms obtain n where "item_price it = Some n"
      by (cases "item_price it") (simp_all add: hasField_def getField_price)
    with 2 show ?thesis by (simp add: getField_price numberOf_def)
  next
    case 3
    with assms getField_text [OF 3, of it] show ?thesis by (simp add: hasField_def)
  qed
qed

lemma compareItems_num:
  assumes "getField a f = Num x" "getField b f = Num y"
  shows "compareItems f ord a b
         = (if x < y then (if ord = ''asc'' then - 1 else 1)
            else if y < x then (if ord = ''asc'' then 1 else - 1) else 0)"
  using assms by (simp add: compareItems_def)

lemma compareItems_str:
  assumes "getField a f = Str x" "getField b f = Str y"
  shows "compareItems f ord a b
         = (if toLowerCase x < toLowerCase y then (if ord = ''asc'' then - 1 else 1)
            else if toLowerCase y < toLowerCase x then (if ord = ''asc'' then 1 else - 1) else 0)"
  using assms by (simp add: compareItems_def)

lemma compareItems_keyed_num:
  assumes "f = ''id'' \<or> f = ''price''" "hasField f a" "hasField f b"
  shows "compareItems f ord a b
         = (if numberOf f a < numberOf f b then (if ord = ''asc'' then - 1 else 1)
            else if numberOf f b < numberOf f a then (if ord = ''asc'' then 1 else - 1) else 0)"
proof -
  from hasField_kind [OF assms(2)] hasField_kind [OF assms(3)] assms(1)
  have "getField a f = Num (numberOf f a)" "getField b f = Num (numberOf f b)" by blast+
  then show ?thesis by (rule compareItems_num)
qed

lemma compareItems_keyed_str:
  assumes "f \<noteq> ''id''" "f \<noteq> ''price''" "hasField f a" "hasField f b"
  shows "compareItems f ord a b
         = (if loweredTextOf f a < loweredTextOf f b then (if ord = ''asc'' then - 1 else 1)
            else if loweredTextOf f b < loweredTextOf f a
                 then (if ord = ''asc'' then 1 else - 1) else 0)"
proof -
  from hasField_kind [OF assms(3)] hasField_kind [OF assms(4)] assms(1,2)
  obtain s t where g: "getField a f = Str s" "getField b f = Str t" by blast
  then have "loweredTextOf f a = toLowerCase s" "loweredTextOf f b = toLowerCase t"
    by (simp_all add: loweredTextOf_def)
  with compareItems_str [OF g, of ord] show ?thesis by simp
qed

lemma three_way_consistent:
  fixes x y z :: "'k::linorder"
  assumes ab: "ab = (if x < y then (if asc then - 1 else 1)
                     else if y < x then (if asc then 1 else - 1) else (0::int))"
    and ba: "ba = (if y < x then (if asc then - 1 else 1)
                     else if x < y then (if asc then 1 else - 1) else (0::int))"
    and bc: "bc = (if y < z then (if asc then - 1 else 1)
                     else if z < y then (if asc then 1 else - 1) else (0::int))"
    and ac: "ac = (if x < z then (if asc then - 1 else 1)
                     else if z < x then (if asc then 1 else - 1) else (0::int))"
  shows "ba = - ab" and "ab \<le> 0 \<Longrightarrow> bc \<le> 0 \<Longrightarrow> ac \<le> 0"
proof -
  show "ba = - ab" unfolding ab ba by (cases asc) auto
  assume "ab \<le> 0" "bc \<le> 0"
  then show "ac \<le> 0" unfolding ab bc ac by (cases asc) (auto split: if_splits)
qed

text \<open>On items that have the field the comparator is a consistent comparison function.\<close>

lemma compareItems_consistent:
  assumes "hasField f a" "hasField f b" "hasField f c"
  shows "compareItems f ord a a = 0"
    and "compareItems f ord b a = - compareItems f ord a b"
    and "compareItems f ord a b \<le> 0 \<Longrightarrow> compareItems f ord b c \<le> 0
         \<Longrightarrow> compareItems f ord a c \<le> 0"
proof -
  consider (num) "f = ''id'' \<or> f = ''price''" | (str) "f \<noteq> ''id''" "f \<noteq> ''price''"
    by blast
  then have "compareItems f ord a a = 0
    \<and> compareItems f ord b a = - compareItems f ord a b
    \<and> (compareItems f ord a b \<le> 0 \<longrightarrow> compareItems f ord b c \<le> 0
         \<longrightarrow> compareItems f ord a c \<le> 0)"
  proof cases
    case num
    note k = compareItems_keyed_num [OF num]
    from k [where ord = ord, OF assms(1,1)] have 1: "compareItems f ord a a = 0" by simp
    from three_way_consistent [OF k [where ord = ord, OF assms(1,2)]
        k [where ord = ord, OF assms(2,1)] k [where ord = ord, OF assms(2,3)]
        k [where ord = ord, OF assms(1,3)]]
    show ?thesis using 1 by blast
  next
    case str
    note k = compareItems_keyed_str [OF str]
    from k [where ord = ord, OF assms(1,1)] have 1: "compareItems f ord a a = 0" by simp
    from three_way_consistent [OF k [where ord = ord, OF assms(1,2)]
        k [where ord = ord, OF assms(2,1)] k [where ord = ord, OF assms(2,3)]
        k [where ord = ord, OF assms(1,3)]]
    show ?thesis using 1 by blast
  qed
  then show "compareItems f ord a a = 0"
    and "compareItems f ord b a = - compareItems f ord a b"
    and "compareItems f ord a b \<le> 0 \<Longrightarrow> compareItems f ord b c \<le> 0
         \<Longrightarrow> compareItems f ord a c \<le> 0"
    by blast+
qed

lemma compareItems_less_num:
  assumes "f = ''id'' \<or> f = ''price''" "hasField f a" "hasField f b"
  shows "compareItems f ''asc'' a b < 0 \<longleftrightarrow> numberOf f a < numberOf f b"
    and "ord \<noteq> ''asc'' \<Longrightarrow> compareItems f ord a b < 0 \<longleftrightarrow> numberOf f b < numberOf f a"
  by (simp_all add: compareItems_keyed_num [OF assms])

lemma compareItems_less_str:
  assumes "f \<noteq> ''id''" "f \<noteq> ''price''" "hasField f a" "hasField f b"
  shows "compareItems f ''asc'' a b < 0 \<longleftrightarrow> loweredTextOf f a < loweredTextOf f b"
    and "ord \<noteq> ''asc'' \<Longrightarrow>
         compareItems f ord a b < 0 \<longleftrightarrow> loweredTextOf f b < loweredTextOf f a"
  by (auto simp: compareItems_keyed_str [OF assms])

text \<open>
  So on a list whose items all have the field the result of the sort is fixed: the stable
  ascending sort by the key, or, for a descending order, the stable sort by decreasing key.
\<close>

lemma js_sort_compareItems_num:
  assumes "f = ''id'' \<or> f = ''price''" "list_all (hasField f) xs"
  shows "js_sort (compareItems f ''asc'') xs = sort_key (numberOf f) xs"
    and "ord \<noteq> ''asc'' \<Longrightarrow>
         js_sort (compareItems f ord) xs = rev (sort_key (numberOf f) (rev xs))"
proof -
  have h: "hasField f x" if "x \<in> set xs" for x
    using that assms(2) by (simp add: list_all_iff)
  show "js_sort (compareItems f ''asc'') xs = sort_key (numberOf f) xs"
    by (rule js_sort_is_stable_sort) (simp add: compareItems_less_num(1) [OF assms(1)] h)
  assume "ord \<noteq> ''asc''"
  then show "js_sort (compareItems f ord) xs = rev (sort_key (numberOf f) (rev xs))"
    by (intro js_sort_is_stable_sort_desc) (simp add: compareItems_less_num(2) [OF assms(1)] h)
qed

lemma js_sort_compareItems_str:
  assumes "f \<noteq> ''id''" "f \<noteq> ''price''" "list_all (hasField f) xs"
  shows "js_sort (compareItems f ''asc'') xs = sort_key (loweredTextOf f) xs"
    and "ord \<noteq> ''asc'' \<Longrightarrow>
         js_sort (compareItems f ord) xs = rev (sort_key (loweredTextOf f) (rev xs))"
proof -
  have h: "hasField f x" if "x \<in> set xs" for x
    using that assms(3) by (simp add: list_all_iff)
  show "js_sort (compareItems f ''asc'') xs = sort_key (loweredTextOf f) xs"
    by (rule js_sort_is_stable_sort) (simp add: compareItems_less_str(1) [OF assms(1,2)] h)
  assume "ord \<noteq> ''asc''"
  then show "js_sort (compareItems f ord) xs = rev (sort_key (loweredTextOf f) (rev xs))"
    by (intro js_sort_is_stable_sort_desc) (simp add: compareItems_less_str(2) [OF assms(1,2)] h)
qed

section \<open>Sorting with a missing value\<close>

text \<open>
  Claim C7. \<open>sortItems\<close> is to treat a missing string value as the empty string when it
  compares. Its comparator does so for the second operand only: the empty category is below
  \<open>books\<close>, but an item with no category, as first operand, compares equal to the item in
  \<open>books\<close>, and equal to the item with the empty category as well, while as second operand it
  is below \<open>books\<close>. The comparator is therefore not consistent, and where such items come to
  stand is left to the sorting of the engine.
\<close>

theorem compareItems_missing_left_operand:
  "compareItems ''category'' ''asc'' uncategorisedItem testItem2 = 0
   \<and> compareItems ''category'' ''asc'' blankCategoryItem testItem2 = - 1
   \<and> compareItems ''category'' ''asc'' testItem2 uncategorisedItem = 1
   \<and> compareItems ''category'' ''asc'' testItem2 blankCategoryItem = 1
   \<and> compareItems ''category'' ''asc'' uncategorisedItem blankCategoryItem = 0
   \<and> compareItems ''category'' ''asc'' blankCategoryItem uncategorisedItem = 0"
  by code_simp

section \<open>The client mirror and the server, page by page\<close>

lemma sortItems_is_stableSortBy:
  assumes "f \<in> set validSortFields" "list_all (hasField f) xs"
  shows "sortItems xs f so = stableSortBy f (toLowerCase so \<noteq> ''desc'') xs"
proof (cases "f = ''id'' \<or> f = ''price''")
  case True
  show ?thesis
  proof (cases "toLowerCase so = ''desc''")
    case d: True
    have "js_sort (compareItems f ''desc'') xs = rev (sort_key (numberOf f) (rev xs))"
      by (rule js_sort_compareItems_num(2) [OF True assms(2)]) simp
    with True d assms(1) show ?thesis by (simp add: sortItems_def stableSortBy_def)
  next
    case a: False
    from js_sort_compareItems_num(1) [OF True assms(2)] True a assms(1)
    show ?thesis by (simp add: sortItems_def stableSortBy_def)
  qed
next
  case False
  then have n: "f \<noteq> ''id''" "f \<noteq> ''price''" by simp_all
  show ?thesis
  proof (cases "toLowerCase so = ''desc''")
    case d: True
    have "js_sort (compareItems f ''desc'') xs = rev (sort_key (loweredTextOf f) (rev xs))"
      by (rule js_sort_compareItems_str(2) [OF n assms(2)]) simp
    with False d assms(1) show ?thesis by (simp add: sortItems_def stableSortBy_def)
  next
    case a: False
    from js_sort_compareItems_str(1) [OF n assms(2)] False a assms(1)
    show ?thesis by (simp add: sortItems_def stableSortBy_def)
  qed
qed

lemma filterByCategory_is_filter: "\<exists>P. filterByCategory coll c = filter P coll"
proof (cases "\<exists>cat. c = Some cat \<and> cat \<noteq> [] \<and> trim cat \<noteq> []")
  case True
  then obtain cat where "c = Some cat" "cat \<noteq> []" "trim cat \<noteq> []" by blast
  then have "filterByCategory coll c = filter (categoryMatches cat) coll"
    by (simp add: filterByCategory_def)
  then show ?thesis by blast
next
  case False
  then have "filterByCategory coll c = filter (\<lambda>_. True) coll"
    by (cases c) (auto simp: filterByCategory_def)
  then show ?thesis by blast
qed

lemma searchItems_is_filter: "\<exists>P. searchItems xs q = filter P xs"
proof (cases "\<exists>qs. q = Some qs \<and> qs \<noteq> [] \<and> trim qs \<noteq> []")
  case True
  then obtain qs where "q = Some qs" "qs \<noteq> []" "trim qs \<noteq> []" by blast
  then have "searchItems xs q
      = filter (\<lambda>it. list_ex (fieldMatches (trim (toLowerCase qs))) (searchableFields it)) xs"
    by (simp add: searchItems_def)
  then show ?thesis by blast
next
  case False
  then have "searchItems xs q = filter (\<lambda>_. True) xs"
    by (cases q) (auto simp: searchItems_def)
  then show ?thesis by blast
qed

lemma filterAndSort_is_sorted_filter:
  "\<exists>P. filterAndSort coll req
        = sortItems (filter P coll) (strOr (qp_sortBy req) ''id'') (strOr (qp_sortOrder req) ''asc'')"
proof -
  let ?f = "strOr (qp_sortBy req) ''id''" and ?so = "strOr (qp_sortOrder req) ''asc''"
  obtain Pc where c: "filterByCategory coll (qp_category req) = filter Pc coll"
    using filterByCategory_is_filter by blast
  obtain Ps where s: "searchItems (filter Pc coll) (qp_q req) = filter Ps (filter Pc coll)"
    using searchItems_is_filter by blast
  show ?thesis
  proof (cases "\<exists>qs. qp_q req = Some qs \<and> qs \<noteq> []")
    case True
    then obtain qs where q: "qp_q req = Some qs" "qs \<noteq> []" by blast
    with s have s': "searchItems (filter Pc coll) (Some qs) = filter Ps (filter Pc coll)"
      by simp
    from q have "filterAndSort coll req = sortItems (filter Ps (filter Pc coll)) ?f ?so"
      by (simp add: filterAndSort_def Let_def c s')
    then have "filterAndSort coll req = sortItems (filter (\<lambda>x. Pc x \<and> Ps x) coll) ?f ?so"
      by simp
    then show ?thesis by (rule exI [of _ "\<lambda>x. Pc x \<and> Ps x"])
  next
    case False
    then have "filterAndSort coll req = sortItems (filter Pc coll) ?f ?so"
      by (cases "qp_q req") (auto simp: filterAndSort_def Let_def c)
    then show ?thesis by (rule exI [of _ Pc])
  qed
qed

lemma set_sortItems: "set (sortItems xs f so) = set xs"
proof -
  have "mset (sortItems xs f so) = mset xs" by (simp add: sortItems_def Let_def mset_js_sort)
  then show ?thesis by (rule mset_eq_setD)
qed

lemma filter_kept: "filter (\<lambda>it. it \<in> set (filter P coll)) coll = filter P coll"
  by (rule filter_cong) auto

lemma filterAndSort_stable:
  assumes "case qp_sortBy req of None \<Rightarrow> True | Some s \<Rightarrow> s \<in> set validSortFields"
    and "list_all (hasField (strOr (qp_sortBy req) ''id'')) coll"
  shows "filterAndSort coll req
         = stableSortBy (strOr (qp_sortBy req) ''id'')
             (toLowerCase (strOr (qp_sortOrder req) ''asc'') \<noteq> ''desc'')
             (filter (\<lambda>it. it \<in> set (filterAndSort coll req)) coll)"
proof -
  let ?f = "strOr (qp_sortBy req) ''id''" and ?so = "strOr (qp_sortOrder req) ''asc''"
  obtain P where p: "filterAndSort coll req = sortItems (filter P coll) ?f ?so"
    using filterAndSort_is_sorted_filter by blast
  have v: "?f \<in> set validSortFields"
    using assms(1) by (cases "qp_sortBy req") (simp_all add: strOr_def validSortFields_def)
  have h: "list_all (hasField ?f) (filter P coll)"
    using assms(2) by (simp add: list_all_iff)
  have k: "filter (\<lambda>it. it \<in> set (filterAndSort coll req)) coll = filter P coll"
    by (simp only: p set_sortItems filter_kept)
  show ?thesis
    unfolding k using p sortItems_is_stableSortBy [OF v h] by simp
qed

text \<open>
  Claim C3, as amended. For every item collection whose items all have the sort field, and
  every query whose limit parses to an integer from 1 to 100, whose page is absent or does not
  parse to a negative integer, whose \<open>sortBy\<close> is absent or one of \<open>id\<close>, \<open>name\<close>,
  \<open>price\<close>, \<open>category\<close>, \<open>createdAt\<close>, whose \<open>sortOrder\<close> is absent, \<open>asc\<close>, or \<open>desc\<close>
  in any letter case, and whose category is absent or has no white space around it, the client
  mirror (\<open>processItemsClientSide\<close>, then the client's slice and metadata) gives the same page
  of items in the same order, the same \<open>resultsFound\<close> and the same pagination and search
  metadata as the server pipeline; the sequence that both cut the page from is the stable sort,
  by the sort key, of the items kept by the filters, which the comparator, consistent on such
  items, fixes for every engine.
\<close>

theorem client_mirror_agrees_on_shared_queries:
  "sharedQuery req \<Longrightarrow> list_all (hasField (strOr (qp_sortBy req) ''id'')) coll \<Longrightarrow>
     clientListItems coll req = listItems coll req
     \<and> filterAndSort coll req
         = stableSortBy (strOr (qp_sortBy req) ''id'')
             (toLowerCase (strOr (qp_sortOrder req) ''asc'') \<noteq> ''desc'')
             (filter (\<lambda>it. it \<in> set (filterAndSort coll req)) coll)"
proof -
  assume a: "sharedQuery req"
    and h: "list_all (hasField (strOr (qp_sortBy req) ''id'')) coll"
  from a have sb: "case qp_sortBy req of None \<Rightarrow> True | Some s \<Rightarrow> s \<in> set validSortFields"
    and so: "case qp_sortOrder req of None \<Rightarrow> True
             | Some s \<Rightarrow> s = ''asc'' \<or> toLowerCase s = ''desc''"
    and lm: "case qp_limit req of None \<Rightarrow> False
           | Some s \<Rightarrow> (case parseInt s of None \<Rightarrow> False | Some n \<Rightarrow> 1 \<le> n \<and> n \<le> 100)"
    and pg: "case qp_page req of None \<Rightarrow> True
           | Some s \<Rightarrow> (case parseInt s of None \<Rightarrow> True | Some n \<Rightarrow> 0 \<le> n)"
    by (simp_all add: sharedQuery_def)
  have e: "clientListItems coll req = listItems coll req"
    unfolding clientListItems_def listItems_def paginateItems_def Let_def
      processItemsClientSide_shared [OF a]
      shared_sortBy_nonempty(2) [OF sb] shared_sortOrder_nonempty [OF so]
      shared_limit [OF lm]
    using shared_page [OF pg]
    by simp
  from e filterAndSort_stable [OF sb h] show ?thesis by (rule conjI)
qed

lemma sampleQuery_shared: "sharedQuery sampleQuery"
  by code_simp

lemma sampleQuery_page:
  "listItems mockItems sampleQuery
   = \<lparr> page_items = [testItem1, anotherItem],
       page_pagination = \<lparr> currentPage = 1, totalPages = 1, totalItems = 2, itemsPerPage = 2,
          hasNextPage = False, hasPrevPage = False, nextPage = None, prevPage = None \<rparr>,
       page_search = \<lparr> search_query = Some ''item'', search_category = Some ''Electronics'',
          search_sortBy = ''price'', search_sortOrder = ''desc'', resultsFound = 2 \<rparr> \<rparr>"
  by code_simp

lemma mockItems_priced: "list_all (hasField (strOr (qp_sortBy sampleQuery) ''id'')) mockItems"
  by code_simp

theorem client_mirror_agrees_on_shared_queries_witness:
  "sharedQuery sampleQuery
   \<and> list_all (hasField (strOr (qp_sortBy sampleQuery) ''id'')) mockItems
   \<and> clientListItems mockItems sampleQuery
       = \<lparr> page_items = [testItem1, anotherItem],
           page_pagination = \<lparr> currentPage = 1, totalPages = 1, totalItems = 2,
              itemsPerPage = 2, hasNextPage = False, hasPrevPage = False, nextPage = None,
              prevPage = None \<rparr>,
           page_search = \<lparr> search_query = Some ''item'', search_category = Some ''Electronics'',
              search_sortBy = ''price'', search_sortOrder = ''desc'', resultsFound = 2 \<rparr> \<rparr>"
  using client_mirror_agrees_on_shared_queries [OF sampleQuery_shared mockItems_priced]
    sampleQuery_shared mockItems_priced
  by (simp add: sampleQuery_page)

text \<open>
  With no parameter at all the client pages by 12 and the server by 10; a limit of 200 stays 200
  on the client; a category with blanks around it matches nothing on the client; and the sort
  order \<open>ASC\<close> is descending on the client.
\<close>

theorem client_mirror_differs_counterexample:
  "clientListItems mockItems noQuery \<noteq> listItems mockItems noQuery
   \<and> itemsPerPage (page_pagination (clientListItems mockItems noQuery)) = 12
   \<and> itemsPerPage (page_pagination (listItems mockItems noQuery)) = 10
   \<and> itemsPerPage (page_pagination
         (clientListItems mockItems (noQuery\<lparr>qp_limit := Some ''200''\<rparr>))) = 200
   \<and> itemsPerPage (page_pagination
         (listItems mockItems (noQuery\<lparr>qp_limit := Some ''200''\<rparr>))) = 100
   \<and> page_items (clientListItems mockItems
         (noQuery\<lparr>qp_limit := Some ''10'', qp_category := Some '' books ''\<rparr>)) = []
   \<and> page_items (listItems mockItems
         (noQuery\<lparr>qp_limit := Some ''10'', qp_category := Some '' books ''\<rparr>)) = [testItem2]
   \<and> page_items (clientListItems mockItems
         (noQuery\<lparr>qp_limit := Some ''10'', qp_sortOrder := Some ''ASC''\<rparr>))
       = [anotherItem, testItem2, testItem1]
   \<and> page_items (listItems mockItems
         (noQuery\<lparr>qp_limit := Some ''10'', qp_sortOrder := Some ''ASC''\<rparr>))
       = [testItem1, testItem2, anotherItem]"
  by code_simp

end
